theory Spec2Isabelle
  imports Main "HOL-Library.Word"
begin

unbundle bit_operations_syntax

section \<open>Values, errors and promises\<close>

text \<open>
  The HTTP backend worker (\<^verbatim>\<open>js/vfs-http-worker-bundle.js\<close>) keeps two LRU caches: \<^verbatim>\<open>files\<close>
  (URL to file entry) and \<^verbatim>\<open>cache\<close> (\<^verbatim>\<open>id|page\<close> to page data). Every \<^verbatim>\<open>throw\<close> and every
  runtime exception of the modelled code is a constructor of \<open>error\<close>.
\<close>

datatype error =
    FileNotOpen                 \<comment> \<open>\<^verbatim>\<open>File ... not open\<close>\<close>
  | MandatoryArgumentsMissing   \<comment> \<open>\<^verbatim>\<open>Mandatory arguments missing\<close>\<close>
  | PageSizeOverMaximum         \<comment> \<open>\<^verbatim>\<open>... is over the maximum configured ...\<close>\<close>
  | SpansPageBoundary           \<comment> \<open>\<^verbatim>\<open>Read chunk ... spans across a page-boundary\<close>\<close>
  | InvalidHTTPResponse         \<comment> \<open>\<^verbatim>\<open>Invalid HTTP response received\<close>\<close>
  | FetchRejected               \<comment> \<open>the promise of \<^verbatim>\<open>fetch\<close> rejects (network error)\<close>
  | TypeError                   \<comment> \<open>JavaScript \<^verbatim>\<open>TypeError\<close>\<close>
  | RangeError                  \<comment> \<open>JavaScript \<^verbatim>\<open>RangeError\<close> (BigInt division by zero, typed array bounds)\<close>
  | SyntaxError                 \<comment> \<open>JavaScript \<^verbatim>\<open>SyntaxError\<close> (\<^verbatim>\<open>BigInt\<close> of a non-numeric string)\<close>

type_synonym byte = "8 word"

text \<open>
  A promise is identified by the \<^verbatim>\<open>fetch\<close> call it comes from: \<open>PFetch f\<close> is the promise chain
  built on the \<open>f\<close>-th call of \<^verbatim>\<open>fetch\<close> (\<^verbatim>\<open>resp\<close> in \<^verbatim>\<open>xRead\<close>, \<^verbatim>\<open>entry\<close> in \<^verbatim>\<open>xOpen\<close>), and
  \<open>PThen f p\<close> is \<^verbatim>\<open>resp.then(() => Number(page))\<close> with \<open>p\<close> the page.
\<close>

datatype promise = PFetch nat | PThen nat nat

text \<open>What the page cache holds: a \<^verbatim>\<open>Uint8Array\<close>, a page number, or a promise of either.\<close>

datatype cval = U8 "byte list" | Num nat | Promise promise

text \<open>What the file registry holds: the promise of the metadata probe, or the entry object
  (named by its \<^verbatim>\<open>id\<close>, which \<^verbatim>\<open>nextId++\<close> makes unique).\<close>

datatype fval = FilePromise nat | FileEntry nat

section \<open>The LRU cache\<close>

text \<open>
  \<^verbatim>\<open>class LRUCache\<close> keeps its entries in a doubly linked list threaded through the arrays
  \<^verbatim>\<open>keyList\<close>, \<^verbatim>\<open>valList\<close>, \<^verbatim>\<open>sizes\<close>, \<^verbatim>\<open>next\<close> and \<^verbatim>\<open>prev\<close>, from \<^verbatim>\<open>head\<close> (least recently used)
  to \<^verbatim>\<open>tail\<close> (most recently used), with \<^verbatim>\<open>keyMap\<close> from a key to its slot. The model keeps
  the list itself: \<open>chain\<close> holds \<open>(key, value, size)\<close> of every live slot in the order
  \<^verbatim>\<open>head\<close>, \<^verbatim>\<open>next[head]\<close>, ..., \<^verbatim>\<open>tail\<close>; \<^verbatim>\<open>this.size\<close> is its length and \<^verbatim>\<open>keyMap.get(k)\<close> is
  \<open>map_of (chain c) k\<close>. \<^verbatim>\<open>calculatedSize\<close> is kept as the separate counter the code
  maintains. No time-to-live, \<^verbatim>\<open>dispose\<close> or \<^verbatim>\<open>fetchMethod\<close> is configured by the worker, and
  the promises it stores are plain promises, so \<^verbatim>\<open>isBackgroundFetch\<close> and \<^verbatim>\<open>isStale\<close> are
  always false and those branches are left out.
\<close>

record ('k, 'v) lru =
  max_opt :: nat                          \<comment> \<open>\<^verbatim>\<open>this.max\<close>\<close>
  maxSize :: int
  maxEntrySize :: int
  sizeCalculation :: "('v \<Rightarrow> int) option"
  chain :: "('k \<times> 'v \<times> int) list"
  calculatedSize :: int

definition isPosInt :: "int \<Rightarrow> bool" where
  "isPosInt n = (0 < n)"

text \<open>The constructor, called with \<^verbatim>\<open>{max}\<close> or \<^verbatim>\<open>{maxSize, sizeCalculation}\<close>.\<close>

definition new_LRUCache :: "nat \<Rightarrow> int \<Rightarrow> ('v \<Rightarrow> int) option \<Rightarrow> error + ('k, 'v) lru" where
  "new_LRUCache mx msz calc =
     (let mes = msz \<comment> \<open>\<^verbatim>\<open>this.maxEntrySize = maxEntrySize || this.maxSize\<close>\<close>
      in if calc \<noteq> None \<and> msz = 0 \<and> mes = 0 then Inl TypeError
         else if mes \<noteq> 0 \<and> msz \<noteq> 0 \<and> \<not> isPosInt msz then Inl TypeError
         else if mes \<noteq> 0 \<and> \<not> isPosInt mes then Inl TypeError
         else if mx = 0 \<and> msz = 0 then Inl TypeError
         else Inr \<lparr>max_opt = mx, maxSize = msz, maxEntrySize = mes, sizeCalculation = calc,
                   chain = [], calculatedSize = 0\<rparr>)"

definition unlink :: "'k \<Rightarrow> ('k \<times> 'v \<times> int) list \<Rightarrow> ('k \<times> 'v \<times> int) list" where
  "unlink k es = filter (\<lambda>e. fst e \<noteq> k) es"

definition moveToTail :: "'k \<Rightarrow> ('k, 'v) lru \<Rightarrow> ('k, 'v) lru" where
  "moveToTail k c =
     (case map_of (chain c) k of
        None \<Rightarrow> c
      | Some e \<Rightarrow> c\<lparr>chain := unlink k (chain c) @ [(k, e)]\<rparr>)"

text \<open>\<^verbatim>\<open>removeItemSize\<close> and \<^verbatim>\<open>addItemSize\<close> are no-ops unless \<^verbatim>\<open>initializeSizeTracking\<close> ran,
  which the constructor does when \<^verbatim>\<open>maxEntrySize !== 0\<close>.\<close>

definition removeItemSize :: "int \<Rightarrow> ('k, 'v) lru \<Rightarrow> ('k, 'v) lru" where
  "removeItemSize sz c =
     (if maxEntrySize c \<noteq> 0 then c\<lparr>calculatedSize := calculatedSize c - sz\<rparr> else c)"

text \<open>\<^verbatim>\<open>evict\<close> drops the head. On an empty list (never reached: the entry being inserted is
  in the list) the slot at \<^verbatim>\<open>head\<close> is a freed one of size 0, and nothing changes.\<close>

definition evict :: "('k, 'v) lru \<Rightarrow> ('k, 'v) lru" where
  "evict c =
     (case chain c of
        [] \<Rightarrow> c
      | (k, v, sz) # es \<Rightarrow> (removeItemSize sz c)\<lparr>chain := es\<rparr>)"

text \<open>The loop \<^verbatim>\<open>while (this.calculatedSize > maxSize) { this.evict(true) }\<close> of
  \<^verbatim>\<open>addItemSize\<close>; \<open>None\<close> when it does not end.\<close>

partial_function (option) evict_while :: "int \<Rightarrow> ('k, 'v) lru \<Rightarrow> ('k, 'v) lru option" where
  "evict_while limit c =
     (if calculatedSize c > limit then evict_while limit (evict c) else Some c)"

declare evict_while.simps [code]

definition addItemSize :: "int \<Rightarrow> ('k, 'v) lru \<Rightarrow> ('k, 'v) lru option" where
  "addItemSize sz c =
     (if maxEntrySize c = 0 then Some c
      else case (if maxSize c \<noteq> 0 then evict_while (maxSize c - sz) c else Some c) of
             None \<Rightarrow> None
           | Some c' \<Rightarrow> Some (c'\<lparr>calculatedSize := calculatedSize c' + sz\<rparr>))"

text \<open>\<^verbatim>\<open>requireSize(k, v, 0, this.sizeCalculation)\<close>: the default method without size tracking
  (it returns \<^verbatim>\<open>undefined\<close>, read as 0 here since the size is not used then), the one
  installed by \<^verbatim>\<open>initializeSizeTracking\<close> otherwise.\<close>

definition requireSize :: "('k, 'v) lru \<Rightarrow> 'v \<Rightarrow> error + int" where
  "requireSize c v =
     (if maxEntrySize c = 0
      then (case sizeCalculation c of None \<Rightarrow> Inr 0 | Some f \<Rightarrow> Inl TypeError)
      else (case sizeCalculation c of
              None \<Rightarrow> Inl TypeError
            | Some f \<Rightarrow> if isPosInt (f v) then Inr (f v) else Inl TypeError))"

definition newIndex :: "('k, 'v) lru \<Rightarrow> ('k, 'v) lru" where
  "newIndex c =
     (if length (chain c) = 0 then c
      else if length (chain c) = max_opt c \<and> max_opt c \<noteq> 0 then evict c
      else c)"

definition lru_clear :: "('k, 'v) lru \<Rightarrow> ('k, 'v) lru" where
  "lru_clear c = c\<lparr>chain := [], calculatedSize := 0\<rparr>"

definition lru_delete :: "'k \<Rightarrow> ('k, 'v) lru \<Rightarrow> ('k, 'v) lru" where
  "lru_delete k c =
     (if length (chain c) \<noteq> 0
      then (case map_of (chain c) k of
              None \<Rightarrow> c
            | Some (v, sz) \<Rightarrow>
                if length (chain c) = 1 then lru_clear c
                else (removeItemSize sz c)\<lparr>chain := unlink k (chain c)\<rparr>)
      else c)"

text \<open>
  \<^verbatim>\<open>set(k, v)\<close>. The parameter \<open>same\<close> is JavaScript's \<^verbatim>\<open>v === oldVal\<close> on the values of the
  cache at hand. The result is \<open>None\<close> when the eviction loop does not end, \<open>Some (Inl e)\<close>
  when \<^verbatim>\<open>requireSize\<close> throws (before anything is changed), \<open>Some (Inr c')\<close> otherwise.
\<close>

definition lru_set ::
  "('v \<Rightarrow> 'v \<Rightarrow> bool) \<Rightarrow> 'k \<Rightarrow> 'v \<Rightarrow> ('k, 'v) lru \<Rightarrow> (error + ('k, 'v) lru) option" where
  "lru_set same k v c =
     (case requireSize c v of
        Inl e \<Rightarrow> Some (Inl e)
      | Inr sz \<Rightarrow>
          if maxEntrySize c \<noteq> 0 \<and> sz > maxEntrySize c then Some (Inr (lru_delete k c))
          else (case map_of (chain c) k of
                  None \<Rightarrow>
                    (let c1 = newIndex c
                     in map_option Inr (addItemSize sz (c1\<lparr>chain := chain c1 @ [(k, v, sz)]\<rparr>)))
                | Some (oldVal, oldSz) \<Rightarrow>
                    (let c1 = moveToTail k c
                     in if \<not> same v oldVal
                        then map_option Inr
                               (addItemSize sz
                                  ((removeItemSize oldSz c1)
                                     \<lparr>chain := unlink k (chain c1) @ [(k, v, sz)]\<rparr>))
                        else Some (Inr c1))))"

definition lru_get :: "'k \<Rightarrow> ('k, 'v) lru \<Rightarrow> 'v option \<times> ('k, 'v) lru" where
  "lru_get k c =
     (case map_of (chain c) k of
        None \<Rightarrow> (None, c)
      | Some (v, sz) \<Rightarrow> (Some v, moveToTail k c))"

section \<open>The dispatcher's state\<close>

text \<open>
  A file entry is the object \<^verbatim>\<open>{url, id, size, pageSize}\<close> made by \<^verbatim>\<open>xOpen\<close>. Entries are mutable
  and shared by reference (\<^verbatim>\<open>files\<close> and the local \<^verbatim>\<open>entry\<close> of a running \<^verbatim>\<open>xRead\<close> name the same
  object), so they live in a store \<open>objects\<close>, addressed by their \<^verbatim>\<open>id\<close>, which is never
  assigned after creation. \<^verbatim>\<open>pageSize\<close> is \<open>None\<close> for \<^verbatim>\<open>null\<close>.
\<close>

record file_entry =
  url :: string
  fsize :: int                 \<comment> \<open>\<^verbatim>\<open>size\<close>, a BigInt\<close>
  pageSize :: "nat option"

record worker_options =
  maxPageSize :: "nat option"
  cacheSize :: "int option"

text \<open>
  The network. A \<^verbatim>\<open>fetch\<close> promise rejects on a network error and resolves with the response
  otherwise, whatever its HTTP status. Of a \<^verbatim>\<open>HEAD\<close> response the code reads the
  \<^verbatim>\<open>Content-Length\<close> header through \<^verbatim>\<open>BigInt\<close> (\<open>Malformed\<close>: a value \<^verbatim>\<open>BigInt\<close> rejects) and
  \<^verbatim>\<open>Accept-Ranges\<close> (for a warning only, not modelled); of a \<^verbatim>\<open>GET\<close> response, the body.
\<close>

datatype header = Absent | Numeric nat | Malformed

datatype head_outcome = HeadFails | HeadResponse nat header    \<comment> \<open>status, \<^verbatim>\<open>Content-Length\<close>\<close>

datatype get_outcome = GetFails | GetResponse nat "byte list"  \<comment> \<open>status, body\<close>

text \<open>
  The state of the promise \<^verbatim>\<open>fetch(...).then((head) => {...})\<close> built on a \<^verbatim>\<open>HEAD\<close> request:
  pending, rejected by \<^verbatim>\<open>fetch\<close>, rejected by \<^verbatim>\<open>BigInt\<close> in the callback, or resolved with the
  entry of the given id. And of \<^verbatim>\<open>resp\<close>, built on a \<^verbatim>\<open>GET\<close> request: pending, rejected, or
  resolved with the body as a \<^verbatim>\<open>Uint8Array\<close>.
\<close>

datatype probe_status = Probing | ProbeFailed | ProbeMalformed | Opened nat

datatype load_status = Loading | LoadFailed | Loaded "byte list"

text \<open>
  \<open>probes\<close> lists the \<^verbatim>\<open>HEAD\<close> requests issued so far (URL) and \<open>loads\<close> the \<^verbatim>\<open>GET\<close> requests
  (URL, first and last byte of the \<^verbatim>\<open>Range\<close> header), each with the state of its promise.
  \<open>cache\<close> is \<open>None\<close> until the \<^verbatim>\<open>init\<close> message creates it. \<open>swapNeeded\<close> is fixed at start-up
  by the endianness probe.
\<close>

record state =
  options :: "worker_options option"
  files :: "(string, fval) lru"
  cache :: "(nat \<times> nat, cval) lru option"
  objects :: "nat \<Rightarrow> file_entry"
  nextId :: nat
  probes :: "(string \<times> probe_status) list"
  loads :: "((string \<times> int \<times> int) \<times> load_status) list"
  swapNeeded :: bool

record network =
  head_reply :: "nat \<Rightarrow> string \<Rightarrow> head_outcome"
  get_reply :: "nat \<Rightarrow> string \<times> int \<times> int \<Rightarrow> get_outcome"

definition maxPageSize_of :: "state \<Rightarrow> nat" where
  \<comment> \<open>\<^verbatim>\<open>options?.maxPageSize ?? defaultOptions.maxPageSize\<close>\<close>
  "maxPageSize_of s =
     (case options s of
        None \<Rightarrow> 4096
      | Some opts \<Rightarrow> (case maxPageSize opts of None \<Rightarrow> 4096 | Some m \<Rightarrow> m))"

definition cacheSize_of :: "state \<Rightarrow> int" where
  \<comment> \<open>\<^verbatim>\<open>options?.cacheSize ?? defaultOptions.cacheSize\<close>\<close>
  "cacheSize_of s =
     (case options s of
        None \<Rightarrow> 1024
      | Some opts \<Rightarrow> (case cacheSize opts of None \<Rightarrow> 1024 | Some m \<Rightarrow> m))"

definition sizeCalculation_page :: "cval \<Rightarrow> int" where
  \<comment> \<open>\<^verbatim>\<open>(value) => value.byteLength ?? 4\<close>\<close>
  "sizeCalculation_page v = (case v of U8 b \<Rightarrow> int (length b) | _ \<Rightarrow> 4)"

text \<open>\<^verbatim>\<open>v === oldVal\<close> on page-cache values: numbers compare by value; two arrays or promises
  are the same only as objects, and every array or promise the worker hands to \<^verbatim>\<open>cache.set\<close>
  was created for that call's fetch, so it is never the stored one.\<close>

fun identical :: "cval \<Rightarrow> cval \<Rightarrow> bool" where
  "identical (Num a) (Num b) = (a = b)"
| "identical _ _ = False"

text \<open>The state at module load: \<^verbatim>\<open>files = new LRUCache({max: 32})\<close>, \<^verbatim>\<open>let cache\<close>,
  \<^verbatim>\<open>let nextId = 1\<close>.\<close>

definition no_entry :: file_entry where
  "no_entry = \<lparr>url = [], fsize = 0, pageSize = None\<rparr>"

definition initial_state :: "bool \<Rightarrow> state" where
  "initial_state little_endian =
     \<lparr>options = None,
      files = \<lparr>max_opt = 32, maxSize = 0, maxEntrySize = 0, sizeCalculation = None,
                chain = [], calculatedSize = 0\<rparr>,
      cache = None, objects = (\<lambda>_. no_entry), nextId = 1, probes = [], loads = [],
      swapNeeded = little_endian\<rparr>"

text \<open>The \<^verbatim>\<open>init\<close> control message: \<^verbatim>\<open>options = data.options\<close>, then the page cache is created;
  when the constructor throws, \<^verbatim>\<open>cache\<close> keeps its old value.\<close>

definition init :: "worker_options option \<Rightarrow> state \<Rightarrow> error option \<times> state" where
  "init opts s =
     (let s1 = s\<lparr>options := opts\<rparr>
      in case new_LRUCache 0 (cacheSize_of s1 * 1024) (Some sizeCalculation_page) of
           Inl e \<Rightarrow> (Some e, s1)
         | Inr c \<Rightarrow> (None, s1\<lparr>cache := Some c\<rparr>))"

section \<open>Promises and the network\<close>

text \<open>What a \<^verbatim>\<open>yield\<close> on a promise gets: \<open>None\<close> while it is pending (or is no promise of
  the list), the rejection or the value once it is settled.\<close>

definition probe_state :: "state \<Rightarrow> nat \<Rightarrow> (error + nat) option" where
  "probe_state s f =
     (if f < length (probes s)
      then (case snd (probes s ! f) of
              Probing \<Rightarrow> None
            | ProbeFailed \<Rightarrow> Some (Inl FetchRejected)
            | ProbeMalformed \<Rightarrow> Some (Inl SyntaxError)
            | Opened i \<Rightarrow> Some (Inr i))
      else None)"

definition load_state :: "state \<Rightarrow> nat \<Rightarrow> load_status" where
  "load_state s f = (if f < length (loads s) then snd (loads s ! f) else Loading)"

fun promise_state :: "state \<Rightarrow> promise \<Rightarrow> (error + cval) option" where
  "promise_state s (PFetch f) =
     (case load_state s f of
        Loading \<Rightarrow> None
      | LoadFailed \<Rightarrow> Some (Inl FetchRejected)
      | Loaded b \<Rightarrow> Some (Inr (U8 b)))"
| "promise_state s (PThen f p) =
     (case load_state s f of
        Loading \<Rightarrow> None
      | LoadFailed \<Rightarrow> Some (Inl FetchRejected)
      | Loaded b \<Rightarrow> Some (Inr (Num p)))"

text \<open>A call of \<^verbatim>\<open>fetch\<close>: the request joins the list, its promise pending.\<close>

definition fetch_head :: "string \<Rightarrow> state \<Rightarrow> nat \<times> state" where
  "fetch_head u s = (length (probes s), s\<lparr>probes := probes s @ [(u, Probing)]\<rparr>)"

definition fetch_get :: "string \<times> int \<times> int \<Rightarrow> state \<Rightarrow> nat \<times> state" where
  "fetch_get rq s = (length (loads s), s\<lparr>loads := loads s @ [(rq, Loading)]\<rparr>)"

text \<open>
  The callback of the probe, run when the \<^verbatim>\<open>HEAD\<close> response arrives:
  \<^verbatim>\<open>{url: msg.url, id: nextId++, size: BigInt(head.headers.get('Content-Length') ?? 0),
  pageSize: null}\<close>. The properties are evaluated in order, so \<^verbatim>\<open>nextId\<close> is already
  incremented when \<^verbatim>\<open>BigInt\<close> throws.
\<close>

definition head_then :: "string \<Rightarrow> header \<Rightarrow> state \<Rightarrow> probe_status \<times> state" where
  "head_then u h s =
     (let i = nextId s; s1 = s\<lparr>nextId := i + 1\<rparr>
      in case h of
           Malformed \<Rightarrow> (ProbeMalformed, s1)
         | Absent \<Rightarrow>
             (Opened i, s1\<lparr>objects := (objects s1)(i := \<lparr>url = u, fsize = 0, pageSize = None\<rparr>)\<rparr>)
         | Numeric n \<Rightarrow>
             (Opened i, s1\<lparr>objects := (objects s1)(i := \<lparr>url = u, fsize = int n, pageSize = None\<rparr>)\<rparr>))"

text \<open>The network answers the \<open>f\<close>-th probe, or the \<open>f\<close>-th byte-range request. A promise
  settles once: a later answer changes nothing.\<close>

definition deliver_head :: "nat \<Rightarrow> head_outcome \<Rightarrow> state \<Rightarrow> state" where
  "deliver_head f out s =
     (if f < length (probes s) \<and> snd (probes s ! f) = Probing
      then (let u = fst (probes s ! f)
            in case out of
                 HeadFails \<Rightarrow> s\<lparr>probes := (probes s)[f := (u, ProbeFailed)]\<rparr>
               | HeadResponse st h \<Rightarrow>
                   (let (r, s1) = head_then u h s
                    in s1\<lparr>probes := (probes s1)[f := (u, r)]\<rparr>))
      else s)"

definition deliver_get :: "nat \<Rightarrow> get_outcome \<Rightarrow> state \<Rightarrow> state" where
  "deliver_get f out s =
     (if f < length (loads s) \<and> snd (loads s ! f) = Loading
      then (let rq = fst (loads s ! f)
            in case out of
                 GetFails \<Rightarrow> s\<lparr>loads := (loads s)[f := (rq, LoadFailed)]\<rparr>
               | GetResponse st b \<Rightarrow> s\<lparr>loads := (loads s)[f := (rq, Loaded b)]\<rparr>)
      else s)"

section \<open>Asynchronous functions as resumptions\<close>

text \<open>
  An \<^verbatim>\<open>async\<close> function (compiled to a generator driven by \<^verbatim>\<open>__awaiter\<close>) runs until it
  returns, throws, or reaches \<^verbatim>\<open>yield p\<close>, where it is suspended until the promise \<open>p\<close> is
  settled; other handlers run on the dispatcher in between. A \<open>step\<close> is the outcome of
  running up to such a point, with the state reached: \<open>AwaitProbe f s k\<close> waits for the
  \<open>f\<close>-th probe and \<open>AwaitData p s k\<close> for a page-cache promise; \<open>k\<close> is the rest of the
  function, given the promise's result and the state at the time of resumption.
  \<open>Pause s k\<close> is a \<^verbatim>\<open>yield\<close> on a promise that is settled when it is reached (the promise of
  an \<^verbatim>\<open>async\<close> call that has finished, or \<^verbatim>\<open>__awaiter\<close>'s promise for a value that is none):
  the rest of the function is a reaction job of that promise, so it runs in a later
  microtask, after whatever the dispatcher has queued before. \<open>Hang\<close> is a loop that does not
  end.
\<close>

datatype 'a step =
    Done 'a state
  | Throw error state
  | Hang
  | AwaitProbe nat state "error + nat \<Rightarrow> state \<Rightarrow> 'a step"
  | AwaitData promise state "error + cval \<Rightarrow> state \<Rightarrow> 'a step"
  | Pause state "state \<Rightarrow> 'a step"

text \<open>Two parts of one function body, one after the other, with no \<^verbatim>\<open>yield\<close> between them:
  the second part goes on in the step in which the first is done.\<close>

primrec bind :: "'a step \<Rightarrow> ('a \<Rightarrow> state \<Rightarrow> 'b step) \<Rightarrow> 'b step" where
  "bind (Done x s) g = g x s"
| "bind (Throw e s) g = Throw e s"
| "bind Hang g = Hang"
| "bind (AwaitProbe f s k) g = AwaitProbe f s (\<lambda>r s'. bind (k r s') g)"
| "bind (AwaitData p s k) g = AwaitData p s (\<lambda>r s'. bind (k r s') g)"
| "bind (Pause s k) g = Pause s (\<lambda>s'. bind (k s') g)"

text \<open>
  \<^verbatim>\<open>x = yield m(...)\<close> on an \<^verbatim>\<open>async\<close> function \<open>m\<close>. The call runs \<open>m\<close> up to its first
  suspension in the caller's step; \<^verbatim>\<open>__awaiter\<close> then waits for the promise of \<open>m\<close> with
  \<^verbatim>\<open>adopt(result.value).then(fulfilled, rejected)\<close>, so the caller goes on, with the value or
  the exception of \<open>m\<close>, in a microtask after the step in which \<open>m\<close> is done.
\<close>

primrec await_call :: "'a step \<Rightarrow> ('a \<Rightarrow> state \<Rightarrow> 'b step) \<Rightarrow> 'b step" where
  "await_call (Done x s) g = Pause s (g x)"
| "await_call (Throw e s) g = Pause s (Throw e)"
| "await_call Hang g = Hang"
| "await_call (AwaitProbe f s k) g = AwaitProbe f s (\<lambda>r s'. await_call (k r s') g)"
| "await_call (AwaitData p s k) g = AwaitData p s (\<lambda>r s'. await_call (k r s') g)"
| "await_call (Pause s k) g = Pause s (\<lambda>s'. await_call (k s') g)"

text \<open>\<^verbatim>\<open>try { ... } catch (e) { ... }\<close>.\<close>

primrec try_catch :: "'a step \<Rightarrow> (error \<Rightarrow> state \<Rightarrow> 'a step) \<Rightarrow> 'a step" where
  "try_catch (Done x s) h = Done x s"
| "try_catch (Throw e s) h = h e s"
| "try_catch Hang h = Hang"
| "try_catch (AwaitProbe f s k) h = AwaitProbe f s (\<lambda>r s'. try_catch (k r s') h)"
| "try_catch (AwaitData p s k) h = AwaitData p s (\<lambda>r s'. try_catch (k r s') h)"
| "try_catch (Pause s k) h = Pause s (\<lambda>s'. try_catch (k s') h)"

text \<open>
  A handler run alone, the network answering each request when its promise is first
  awaited: the result, or \<open>None\<close> when the handler never returns (a loop that does not end,
  or a promise that never settles).
\<close>

primrec run :: "network \<Rightarrow> 'a step \<Rightarrow> ((error + 'a) \<times> state) option" where
  "run net (Done x s) = Some (Inr x, s)"
| "run net (Throw e s) = Some (Inl e, s)"
| "run net Hang = None"
| "run net (AwaitProbe f s k) =
     (let s' = deliver_head f (head_reply net f (fst (probes s ! f))) s
      in case probe_state s' f of None \<Rightarrow> None | Some r \<Rightarrow> run net (k r s'))"
| "run net (AwaitData p s k) =
     (let f = (case p of PFetch f \<Rightarrow> f | PThen f _ \<Rightarrow> f);
          s' = deliver_get f (get_reply net f (fst (loads s ! f))) s
      in case promise_state s' p of None \<Rightarrow> None | Some r \<Rightarrow> run net (k r s'))"
| "run net (Pause s k) = run net (k s)"

section \<open>The handlers of \<^verbatim>\<open>backendAsyncMethods\<close>\<close>

subsection \<open>Access to the two caches\<close>

text \<open>\<^verbatim>\<open>if (entry instanceof Promise) entry = yield entry\<close>; a rejected promise throws at the
  \<^verbatim>\<open>yield\<close>.\<close>

definition await_entry :: "fval \<Rightarrow> state \<Rightarrow> (nat \<Rightarrow> state \<Rightarrow> 'a step) \<Rightarrow> 'a step" where
  "await_entry e s k =
     (case e of
        FileEntry i \<Rightarrow> k i s
      | FilePromise f \<Rightarrow>
          AwaitProbe f s (\<lambda>r s'. case r of Inl err \<Rightarrow> Throw err s' | Inr i \<Rightarrow> k i s'))"

text \<open>\<^verbatim>\<open>files.set(msg.url, v)\<close>.\<close>

definition files_set :: "string \<Rightarrow> fval \<Rightarrow> state \<Rightarrow> (state \<Rightarrow> 'a step) \<Rightarrow> 'a step" where
  "files_set u v s k =
     (case lru_set (=) u v (files s) of
        None \<Rightarrow> Hang
      | Some (Inl e) \<Rightarrow> Throw e s
      | Some (Inr fs) \<Rightarrow> k (s\<lparr>files := fs\<rparr>))"

text \<open>\<^verbatim>\<open>cache.get(key)\<close>, \<^verbatim>\<open>cache.set(key, v)\<close> and \<^verbatim>\<open>cache.delete(key)\<close>; a \<^verbatim>\<open>TypeError\<close> while
  \<^verbatim>\<open>cache\<close> is still \<^verbatim>\<open>undefined\<close>.\<close>

definition cache_get ::
  "nat \<times> nat \<Rightarrow> state \<Rightarrow> (cval option \<Rightarrow> state \<Rightarrow> 'a step) \<Rightarrow> 'a step" where
  "cache_get key s k =
     (case cache s of
        None \<Rightarrow> Throw TypeError s
      | Some c \<Rightarrow> (let (v, c') = lru_get key c in k v (s\<lparr>cache := Some c'\<rparr>)))"

definition cache_set :: "nat \<times> nat \<Rightarrow> cval \<Rightarrow> state \<Rightarrow> (state \<Rightarrow> 'a step) \<Rightarrow> 'a step" where
  "cache_set key v s k =
     (case cache s of
        None \<Rightarrow> Throw TypeError s
      | Some c \<Rightarrow>
          (case lru_set identical key v c of
             None \<Rightarrow> Hang
           | Some (Inl e) \<Rightarrow> Throw e s
           | Some (Inr c') \<Rightarrow> k (s\<lparr>cache := Some c'\<rparr>)))"

definition cache_delete :: "nat \<times> nat \<Rightarrow> state \<Rightarrow> (state \<Rightarrow> 'a step) \<Rightarrow> 'a step" where
  "cache_delete key s k =
     (case cache s of
        None \<Rightarrow> Throw TypeError s
      | Some c \<Rightarrow> k (s\<lparr>cache := Some (lru_delete key c)\<rparr>))"

text \<open>The loop \<^verbatim>\<open>for (let i = Number(page) + 1; i < Number(page) + pages; i++)
  cache.set(entry.id + '|' + i, v)\<close>, over the pages it visits.\<close>

fun cache_set_all ::
  "(nat \<times> nat) list \<Rightarrow> cval \<Rightarrow> state \<Rightarrow> (state \<Rightarrow> 'a step) \<Rightarrow> 'a step" where
  "cache_set_all [] v s k = k s"
| "cache_set_all (key # keys) v s k = cache_set key v s (\<lambda>s'. cache_set_all keys v s' k)"

text \<open>\<^verbatim>\<open>if (data instanceof Promise) data = yield data\<close>.\<close>

definition yield_if_promise ::
  "cval option \<Rightarrow> state \<Rightarrow> (cval option \<Rightarrow> state \<Rightarrow> 'a step) \<Rightarrow> 'a step" where
  "yield_if_promise d s k =
     (case d of
        Some (Promise q) \<Rightarrow>
          AwaitData q s (\<lambda>r s'. case r of Inl e \<Rightarrow> Throw e s' | Inr v \<Rightarrow> k (Some v) s')
      | _ \<Rightarrow> k d s)"

subsection \<open>\<^verbatim>\<open>xOpen\<close>, \<^verbatim>\<open>xAccess\<close> and \<^verbatim>\<open>xFilesize\<close>\<close>

definition xOpen :: "string \<Rightarrow> state \<Rightarrow> int step" where
  "xOpen u s =
     (let (entry, fs) = lru_get u (files s); s1 = s\<lparr>files := fs\<rparr>
      in case entry of
           Some e \<Rightarrow> await_entry e s1 (\<lambda>i s2. Done 0 s2)
         | None \<Rightarrow>
             (let (f, s2) = fetch_head u s1
              in files_set u (FilePromise f) s2
                   (\<lambda>s3. AwaitProbe f s3
                      (\<lambda>r s4. case r of
                                 Inl err \<Rightarrow> Throw err s4
                               | Inr i \<Rightarrow> files_set u (FileEntry i) s4 (\<lambda>s5. Done 0 s5)))))"

text \<open>
  A consumer, as the handlers see it: \<open>buffer\<close> is the data region (\<^verbatim>\<open>consumer.buffer\<close>),
  \<open>shm0\<close> the number that \<^verbatim>\<open>xAccess\<close> and \<^verbatim>\<open>xFilesize\<close> write at offset 0 of \<^verbatim>\<open>consumer.shm\<close>
  (it overlays the first bytes of the data region; no handler reads it back), and \<open>lock\<close>
  the operations performed on the status cell \<^verbatim>\<open>consumer.lock\<close> so far, oldest first. A
  handler changes the consumer only in its last step, so the consumer is handed in and
  returned with the result.
\<close>

datatype atomics = Store int | Notify

record consumer =
  buffer :: "byte list"
  shm0 :: int
  lock :: "atomics list"

definition xAccess :: "string \<Rightarrow> consumer \<Rightarrow> state \<Rightarrow> (int \<times> consumer) step" where
  "xAccess u con s =
     bind (try_catch
             (await_call (xOpen u s) (\<lambda>r s'. Done (con\<lparr>shm0 := (if r = 0 then 1 else 0)\<rparr>) s'))
             (\<lambda>e s'. Done (con\<lparr>shm0 := 0\<rparr>) s'))
          (\<lambda>con' s'. Done (0, con') s')"

definition xFilesize :: "string \<Rightarrow> consumer \<Rightarrow> state \<Rightarrow> (int \<times> consumer) step" where
  "xFilesize u con s =
     (let (entry, fs) = lru_get u (files s); s1 = s\<lparr>files := fs\<rparr>
      in case entry of
           None \<Rightarrow> Throw FileNotOpen s1
         | Some e \<Rightarrow>
             await_entry e s1
               (\<lambda>i s2. Done (0, con\<lparr>shm0 := sint (word_of_int (fsize (objects s2 i)) :: 64 word)\<rparr>) s2))"

subsection \<open>\<^verbatim>\<open>xRead\<close>\<close>

text \<open>\<^verbatim>\<open>data.subarray(b, e)\<close> with JavaScript's relative indices, and \<^verbatim>\<open>buffer.set(a)\<close>, which
  throws when the source does not fit.\<close>

definition subarray :: "int \<Rightarrow> int \<Rightarrow> 'a list \<Rightarrow> 'a list" where
  "subarray b e xs =
     (let len = int (length xs);
          lo = (if b < 0 then max (len + b) 0 else min b len);
          hi = (if e < 0 then max (len + e) 0 else min e len)
      in take (nat (hi - lo)) (drop (nat lo) xs))"

definition buffer_set :: "'a list \<Rightarrow> 'a list \<Rightarrow> error + 'a list" where
  "buffer_set buf a = (if length a > length buf then Inl RangeError else Inr (a @ drop (length a) buf))"

text \<open>Lines 1467 to 1469: the requested range is copied out of \<open>data\<close>, the chunk that starts
  at \<open>pageStart\<close>. A \<open>data\<close> that is not an array has no \<^verbatim>\<open>subarray\<close>.\<close>

definition xRead_finish ::
  "nat \<Rightarrow> nat \<Rightarrow> nat \<Rightarrow> cval \<Rightarrow> byte list \<Rightarrow> state \<Rightarrow> (int \<times> byte list) step" where
  "xRead_finish off n pageStart data buf s =
     (case data of
        U8 b \<Rightarrow>
          (let pageOffset = int off - int pageStart
           in case buffer_set buf (subarray pageOffset (pageOffset + int n) b) of
                Inl e \<Rightarrow> Throw e s
              | Inr buf' \<Rightarrow> Done (0, buf') s)
      | _ \<Rightarrow> Throw TypeError s)"

text \<open>\<^verbatim>\<open>null\<close> read as a number is 0.\<close>

definition ToNumber :: "nat option \<Rightarrow> nat" where
  "ToNumber x = (case x of None \<Rightarrow> 0 | Some n \<Rightarrow> n)"

text \<open>
  The pages \<open>i\<close> with \<^verbatim>\<open>Number(page) + 1 <= i < Number(page) + pages\<close>, where
  \<^verbatim>\<open>pages = chunkSize / entry.pageSize\<close> is a quotient of numbers, not rounded: an integer \<open>i\<close>
  is below \<open>page + chunkSize / pageSize\<close> iff it is below \<open>page\<close> plus the quotient rounded
  up. With \<^verbatim>\<open>entry.pageSize\<close> 0 the quotient is \<^verbatim>\<open>Infinity\<close> for a positive \<^verbatim>\<open>chunkSize\<close> (the
  loop does not end: \<open>None\<close>) and \<^verbatim>\<open>NaN\<close> for 0 (no page).
\<close>

definition following_pages :: "nat \<Rightarrow> nat \<Rightarrow> nat \<Rightarrow> nat list option" where
  "following_pages page chunkSize ps =
     (if ps = 0 then (if chunkSize = 0 then Some [] else None)
      else Some [page + 1 ..< page + (chunkSize + ps - 1) div ps])"

text \<open>
  Lines 1438 to 1463: the segment is downloaded. The promise \<^verbatim>\<open>resp\<close> is stored under the
  page's key and promises of the page number under the keys of the pages that follow,
  then \<^verbatim>\<open>resp\<close> is awaited and the data stored in their place. \<open>chunkSize\<close> is a number of
  bytes; the \<^verbatim>\<open>Range\<close> header is \<^verbatim>\<open>bytes=pageStart-(pageStart + chunkSize - 1)\<close>.
\<close>

definition xRead_fetch ::
  "string \<Rightarrow> nat \<Rightarrow> nat \<Rightarrow> byte list \<Rightarrow> nat \<Rightarrow> nat \<Rightarrow> nat \<Rightarrow> nat \<Rightarrow> state
     \<Rightarrow> (int \<times> byte list) step" where
  "xRead_fetch u off n buf i page pageStart chunkSize s =
     (case following_pages page chunkSize (ToNumber (pageSize (objects s i))) of
        None \<Rightarrow> Hang
      | Some js \<Rightarrow>
          (let (f, s1) = fetch_get (u, int pageStart, int pageStart + (int chunkSize - 1)) s
           in cache_set (i, page) (Promise (PFetch f)) s1
                (\<lambda>s2. cache_set_all (map (Pair i) js) (Promise (PThen f page)) s2
                   (\<lambda>s3. AwaitData (PFetch f) s3
                      (\<lambda>r s4. case r of
                                 Inl e \<Rightarrow> Throw e s4
                               | Inr (U8 b) \<Rightarrow>
                                   if length b = 0 then Throw InvalidHTTPResponse s4
                                   else cache_set (i, page) (U8 b) s4
                                          (\<lambda>s5. cache_set_all (map (Pair i) js) (Num page) s5
                                             (\<lambda>s6. xRead_finish off n pageStart (U8 b) buf s6))
                               | Inr _ \<Rightarrow> Throw InvalidHTTPResponse s4)))))"

text \<open>\<^verbatim>\<open>if (prev)\<close>: an object is truthy, a number unless it is 0, \<^verbatim>\<open>undefined\<close> and \<^verbatim>\<open>false\<close>
  are not.\<close>

definition truthy :: "cval option \<Rightarrow> bool" where
  "truthy x = (case x of None \<Rightarrow> False | Some (Num r) \<Rightarrow> r \<noteq> 0 | Some _ \<Rightarrow> True)"

text \<open>Lines 1428 to 1436, after the first \<^verbatim>\<open>yield\<close> on \<^verbatim>\<open>prev\<close>: a page number is followed to
  its super-page, and a valid super-page doubles the chunk.\<close>

definition xRead_prev ::
  "string \<Rightarrow> nat \<Rightarrow> nat \<Rightarrow> byte list \<Rightarrow> nat \<Rightarrow> nat \<Rightarrow> nat \<Rightarrow> nat \<Rightarrow> cval option \<Rightarrow> state
     \<Rightarrow> (int \<times> byte list) step" where
  "xRead_prev u off n buf i page pageStart chunkSize prev s =
     (let after = (\<lambda>prev2 s2.
            yield_if_promise prev2 s2
              (\<lambda>prev3 s3.
                 xRead_fetch u off n buf i page pageStart
                   (case prev3 of Some (U8 b) \<Rightarrow> length b * 2 | _ \<Rightarrow> chunkSize) s3))
      in case prev of
           Some (Num r) \<Rightarrow> cache_get (i, r) s after
         | _ \<Rightarrow> after prev s)"

text \<open>Lines 1419 to 1437: a cache miss. \<^verbatim>\<open>chunkSize\<close> starts as \<^verbatim>\<open>entry.pageSize\<close>, read here;
  \<^verbatim>\<open>prev = page > 0 && cache.get(entry.id + '|' + (Number(page) - 1))\<close>.\<close>

definition xRead_miss ::
  "string \<Rightarrow> nat \<Rightarrow> nat \<Rightarrow> byte list \<Rightarrow> nat \<Rightarrow> nat \<Rightarrow> nat \<Rightarrow> state \<Rightarrow> (int \<times> byte list) step" where
  "xRead_miss u off n buf i page pageStart s =
     (let chunkSize = ToNumber (pageSize (objects s i));
          with_prev = (\<lambda>prev s1.
            if truthy prev
            then yield_if_promise prev s1 (xRead_prev u off n buf i page pageStart chunkSize)
            else xRead_fetch u off n buf i page pageStart chunkSize s1)
      in if page > 0 then cache_get (i, page - 1) s with_prev else with_prev None s)"

text \<open>Lines 1396 to 1418 and the test of line 1419: the page is looked up; a page number is
  followed to its super-page, which counts only if it is an array.\<close>

definition xRead_cache ::
  "string \<Rightarrow> nat \<Rightarrow> nat \<Rightarrow> byte list \<Rightarrow> nat \<Rightarrow> nat \<Rightarrow> nat \<Rightarrow> state \<Rightarrow> (int \<times> byte list) step" where
  "xRead_cache u off n buf i p page s =
     cache_get (i, page) s
       (\<lambda>data s1. yield_if_promise data s1
          (\<lambda>data1 s2.
             case data1 of
               Some (Num r) \<Rightarrow>
                 cache_get (i, r) s2
                   (\<lambda>data2 s3. yield_if_promise data2 s3
                      (\<lambda>data3 s4.
                         case data3 of
                           Some (U8 b) \<Rightarrow> xRead_finish off n (r * p) (U8 b) buf s4
                         | _ \<Rightarrow> xRead_miss u off n buf i page (page * p) s4))
             | None \<Rightarrow> xRead_miss u off n buf i page (page * p) s2
             | Some d \<Rightarrow> xRead_finish off n (page * p) d buf s2))"

text \<open>Lines 1388 to 1395. \<^verbatim>\<open>msg.offset\<close> is a BigInt and \<^verbatim>\<open>msg.n\<close> a number; the SQLite VFS
  passes offsets and lengths that are not negative, so both are naturals here and
  \<^verbatim>\<open>msg.offset / pageSize\<close> is \<open>off div p\<close>. \<^verbatim>\<open>BigInt(null)\<close> is a \<^verbatim>\<open>TypeError\<close>, a division by
  \<^verbatim>\<open>0n\<close> a \<^verbatim>\<open>RangeError\<close>.\<close>

definition xRead_body ::
  "string \<Rightarrow> nat \<Rightarrow> nat \<Rightarrow> byte list \<Rightarrow> nat \<Rightarrow> state \<Rightarrow> (int \<times> byte list) step" where
  "xRead_body u off n buf i s =
     (case pageSize (objects s i) of
        None \<Rightarrow> Throw TypeError s
      | Some p \<Rightarrow>
          if p = 0 then Throw RangeError s
          else (let page = off div p; pageStart = page * p
                in if pageStart + p < off + n then Throw SpansPageBoundary s
                   else xRead_cache u off n buf i p page s))"

text \<open>
  The one element of \<^verbatim>\<open>new Uint16Array(pageDataBuffer)\<close> over a buffer of two bytes, in the
  byte order of the platform (little-endian iff \<^verbatim>\<open>swapNeeded\<close>), and \<^verbatim>\<open>ntoh16\<close> on it.
\<close>

definition Uint16_view :: "bool \<Rightarrow> byte list \<Rightarrow> 16 word" where
  "Uint16_view little bs =
     (case bs of
        b0 # b1 # _ \<Rightarrow>
          if little then ucast b0 OR push_bit 8 (ucast b1)
          else push_bit 8 (ucast b0) OR ucast b1
      | _ \<Rightarrow> 0)"

definition ntoh16 :: "bool \<Rightarrow> 16 word \<Rightarrow> 16 word" where
  "ntoh16 swap x =
     (if swap then drop_bit 8 (x AND 0xFF00) OR push_bit 8 (x AND 0x00FF) else x)"

definition set_pageSize :: "nat \<Rightarrow> nat \<Rightarrow> state \<Rightarrow> state" where
  "set_pageSize i v s = s\<lparr>objects := (objects s)(i := (objects s i)\<lparr>pageSize := Some v\<rparr>)\<rparr>"

text \<open>
  \<^verbatim>\<open>xRead\<close> (lines 1357 to 1387, then the parts above). It calls itself for the two bytes at
  offset 16 when \<^verbatim>\<open>!entry.pageSize\<close> (\<^verbatim>\<open>null\<close> or 0); the first argument bounds the depth of
  these calls, and \<open>Hang\<close> stands for a call beyond the bound. \<^verbatim>\<open>msg.offset\<close> and \<^verbatim>\<open>msg.n\<close> are
  \<open>None\<close> for \<^verbatim>\<open>undefined\<close>.
\<close>

fun xRead ::
  "nat \<Rightarrow> string \<Rightarrow> nat option \<Rightarrow> nat option \<Rightarrow> byte list \<Rightarrow> state \<Rightarrow> (int \<times> byte list) step" where
  "xRead 0 u off n buf s = Hang"
| "xRead (Suc d) u off n buf s =
     (let (entry, fs) = lru_get u (files s); s1 = s\<lparr>files := fs\<rparr>
      in case entry of
           None \<Rightarrow> Throw FileNotOpen s1
         | Some e \<Rightarrow>
             await_entry e s1
               (\<lambda>i s2.
                  case (n, off) of
                    (Some n', Some off') \<Rightarrow>
                      if ToNumber (pageSize (objects s2 i)) = 0
                      then await_call (xRead d u (Some 16) (Some 2) [0, 0] (set_pageSize i 1024 s2))
                             (\<lambda>(r, pageDataBuffer) s3.
                                if r \<noteq> 0 then Done (r, buf) s3
                                else (let ps = unat (ntoh16 (swapNeeded s3)
                                                       (Uint16_view (swapNeeded s3) pageDataBuffer));
                                          s4 = set_pageSize i ps s3;
                                          rest = (\<lambda>s5.
                                            if ps > maxPageSize_of s5 then Throw PageSizeOverMaximum s5
                                            else xRead_body u off' n' buf i s5)
                                      in if ps \<noteq> 1024 then cache_delete (i, 0) s4 rest
                                         else rest s4))
                      else xRead_body u off' n' buf i s2
                  | _ \<Rightarrow> Throw MandatoryArgumentsMissing s2))"

section \<open>The dispatcher\<close>

text \<open>
  \<^verbatim>\<open>backendAsyncMethods[data.msg]\<close> is one of the four methods of the object, a method that
  the object inherits from \<^verbatim>\<open>Object.prototype\<close>, or no function at all (any other
  \<^verbatim>\<open>data.msg\<close>, \<^verbatim>\<open>undefined\<close> and \<^verbatim>\<open>'__proto__'\<close> among them).
\<close>

datatype inherited =
    Constructor | HasOwnProperty | IsPrototypeOf | PropertyIsEnumerable
  | ToLocaleString | ToString | ValueOf
  | LookupGetter | LookupSetter | DefineGetter | DefineSetter

datatype msg =
    XOpen string
  | XAccess string
  | XRead string "nat option" "nat option"   \<comment> \<open>url, offset, n\<close>
  | XFilesize string
  | Inherited inherited
  | Unknown

text \<open>
  What the called method returns, as far as \<^verbatim>\<open>Atomics.store\<close> tells values apart: a number,
  a boolean, or a value that \<^verbatim>\<open>ToNumber\<close> reads as \<^verbatim>\<open>NaN\<close> (\<^verbatim>\<open>undefined\<close>, the string
  \<^verbatim>\<open>'[object Object]'\<close>, a plain object). \<^verbatim>\<open>Atomics.store\<close> on the \<^verbatim>\<open>Int32Array\<close> stores the
  value's \<^verbatim>\<open>ToIntegerOrInfinity\<close> modulo \<open>2 ^ 32\<close>, and \<^verbatim>\<open>NaN\<close> as 0.
\<close>

datatype returned = Number int | Boolean bool | NotANumber

definition status_of :: "returned \<Rightarrow> int" where
  "status_of r =
     (case r of
        Number x \<Rightarrow> sint (word_of_int x :: 32 word)
      | Boolean b \<Rightarrow> (if b then 1 else 0)
      | NotANumber \<Rightarrow> 0)"

text \<open>
  A method of \<^verbatim>\<open>Object.prototype\<close> called on \<^verbatim>\<open>backendAsyncMethods\<close> with the arguments
  \<^verbatim>\<open>(data, consumer)\<close>, \<^verbatim>\<open>data\<close> being the plain object of a message: \<^verbatim>\<open>Object(data)\<close> is
  \<^verbatim>\<open>data\<close>; the property key of \<^verbatim>\<open>data\<close> is \<^verbatim>\<open>'[object Object]'\<close>, which the object does not
  have; \<^verbatim>\<open>data\<close> does not inherit from the object; \<^verbatim>\<open>toString\<close> gives \<^verbatim>\<open>'[object Object]'\<close>
  and \<^verbatim>\<open>valueOf\<close> the object; there is no accessor to look up; and
  \<^verbatim>\<open>__defineGetter__\<close> and \<^verbatim>\<open>__defineSetter__\<close> throw because the consumer is not callable.
\<close>

definition inherited_call :: "inherited \<Rightarrow> error + returned" where
  "inherited_call m =
     (case m of
        Constructor \<Rightarrow> Inr NotANumber
      | HasOwnProperty \<Rightarrow> Inr (Boolean False)
      | IsPrototypeOf \<Rightarrow> Inr (Boolean False)
      | PropertyIsEnumerable \<Rightarrow> Inr (Boolean False)
      | ToLocaleString \<Rightarrow> Inr NotANumber
      | ToString \<Rightarrow> Inr NotANumber
      | ValueOf \<Rightarrow> Inr NotANumber
      | LookupGetter \<Rightarrow> Inr NotANumber
      | LookupSetter \<Rightarrow> Inr NotANumber
      | DefineGetter \<Rightarrow> Inl TypeError
      | DefineSetter \<Rightarrow> Inl TypeError)"

text \<open>\<^verbatim>\<open>backendAsyncMethods[data.msg](data, this)\<close>; calling what is not a function is a
  \<^verbatim>\<open>TypeError\<close>.\<close>

definition handler :: "nat \<Rightarrow> msg \<Rightarrow> consumer \<Rightarrow> state \<Rightarrow> (returned \<times> consumer) step" where
  "handler d m con s =
     (case m of
        XOpen u \<Rightarrow> bind (xOpen u s) (\<lambda>r s'. Done (Number r, con) s')
      | XAccess u \<Rightarrow> bind (xAccess u con s) (\<lambda>(r, con') s'. Done (Number r, con') s')
      | XRead u off n \<Rightarrow>
          bind (xRead d u off n (buffer con) s)
            (\<lambda>(r, buf) s'. Done (Number r, con\<lparr>buffer := buf\<rparr>) s')
      | XFilesize u \<Rightarrow> bind (xFilesize u con s) (\<lambda>(r, con') s'. Done (Number r, con') s')
      | Inherited m' \<Rightarrow>
          (case inherited_call m' of Inl e \<Rightarrow> Throw e s | Inr r \<Rightarrow> Done (r, con) s)
      | Unknown \<Rightarrow> Throw TypeError s)"

text \<open>\<^verbatim>\<open>workMessage\<close>, bound to the consumer: \<^verbatim>\<open>r = yield backendAsyncMethods[data.msg](data,
  this)\<close>, then the result is stored into the status cell, or 1 when the call or the
  \<^verbatim>\<open>yield\<close> throws, and the waiters are notified.\<close>

definition workMessage :: "nat \<Rightarrow> msg \<Rightarrow> consumer \<Rightarrow> state \<Rightarrow> consumer step" where
  "workMessage d m con s =
     bind (try_catch
             (await_call (handler d m con s)
                (\<lambda>(r, con') s'. Done (con'\<lparr>lock := lock con' @ [Store (status_of r)]\<rparr>) s'))
             (\<lambda>e s'. Done (con\<lparr>lock := lock con @ [Store 1]\<rparr>) s'))
          (\<lambda>con' s'. Done (con'\<lparr>lock := lock con' @ [Notify]\<rparr>) s')"

text \<open>The \<^verbatim>\<open>handshake\<close> control message makes the consumer's shared region:
  \<^verbatim>\<open>maxPageSize\<close> zero bytes of data and the status cell, set to \<^verbatim>\<open>SYNC.HANDSHAKE\<close>.\<close>

definition handshake :: "state \<Rightarrow> consumer" where
  "handshake s = \<lparr>buffer = replicate (maxPageSize_of s) 0, shm0 = 0, lock = [Store 16777214]\<rparr>"

section \<open>Interleaved execution\<close>

text \<open>
  The dispatcher is one thread: a handler runs until it is done or suspended at a
  \<^verbatim>\<open>yield\<close>, then another event is taken. An event is a data message arriving on a
  consumer's port (\<^verbatim>\<open>workMessage\<close> starts), the answer of the network to a request, or the
  resumption of a suspended handler whose promise is settled (a reaction job; the events
  of a list put the jobs in the order in which they are run). \<open>dispatch\<close> takes the state
  and the handlers started so far, each as the step it has reached; once a handler hangs
  nothing else runs.
\<close>

datatype event =
    Receive msg consumer
  | HeadArrives nat head_outcome
  | GetArrives nat get_outcome
  | Resume nat

definition reached :: "state \<Rightarrow> 'a step \<Rightarrow> state" where
  "reached s t =
     (case t of
        Done _ s' \<Rightarrow> s'
      | Throw _ s' \<Rightarrow> s'
      | Hang \<Rightarrow> s
      | AwaitProbe _ s' _ \<Rightarrow> s'
      | AwaitData _ s' _ \<Rightarrow> s'
      | Pause s' _ \<Rightarrow> s')"

definition resume :: "nat \<Rightarrow> state \<times> consumer step list \<Rightarrow> state \<times> consumer step list" where
  "resume j cfg =
     (let s = fst cfg; ts = snd cfg
      in if j < length ts
         then (case ts ! j of
                 AwaitProbe f _ k \<Rightarrow>
                   (case probe_state s f of
                      None \<Rightarrow> cfg
                    | Some r \<Rightarrow> (reached s (k r s), ts[j := k r s]))
               | AwaitData p _ k \<Rightarrow>
                   (case promise_state s p of
                      None \<Rightarrow> cfg
                    | Some r \<Rightarrow> (reached s (k r s), ts[j := k r s]))
               | Pause _ k \<Rightarrow> (reached s (k s), ts[j := k s])
               | _ \<Rightarrow> cfg)
         else cfg)"

definition dispatch ::
  "nat \<Rightarrow> event \<Rightarrow> state \<times> consumer step list \<Rightarrow> state \<times> consumer step list" where
  "dispatch d ev cfg =
     (if Hang \<in> set (snd cfg) then cfg
      else (case ev of
              Receive m con \<Rightarrow>
                (let t = workMessage d m con (fst cfg) in (reached (fst cfg) t, snd cfg @ [t]))
            | HeadArrives f out \<Rightarrow> (deliver_head f out (fst cfg), snd cfg)
            | GetArrives f out \<Rightarrow> (deliver_get f out (fst cfg), snd cfg)
            | Resume j \<Rightarrow> resume j cfg))"

definition dispatch_all ::
  "nat \<Rightarrow> event list \<Rightarrow> state \<times> consumer step list \<Rightarrow> state \<times> consumer step list" where
  "dispatch_all d evs cfg = foldl (\<lambda>c ev. dispatch d ev c) cfg evs"

section \<open>Invariants and observations\<close>

text \<open>The sum of the sizes recorded in \<^verbatim>\<open>sizes\<close> for the entries of a list.\<close>

definition recorded :: "('k \<times> 'v \<times> int) list \<Rightarrow> int" where
  "recorded es = sum_list (map (\<lambda>e. snd (snd e)) es)"

text \<open>What is left of a list, least recently used entry first, when entries are dropped
  from its front until the recorded sizes of the rest are within \<open>limit\<close>.\<close>

fun evict_to :: "int \<Rightarrow> ('k \<times> 'v \<times> int) list \<Rightarrow> ('k \<times> 'v \<times> int) list" where
  "evict_to limit [] = []"
| "evict_to limit (e # es) = (if recorded (e # es) > limit then evict_to limit es else e # es)"

text \<open>
  The invariant of a size-tracking cache with size function \<open>f\<close>: keys occur once, every
  recorded size is the positive \<open>f\<close> of the stored value, and \<^verbatim>\<open>calculatedSize\<close> is their sum
  and within \<^verbatim>\<open>maxSize\<close>.
\<close>

definition lru_inv :: "('v \<Rightarrow> int) \<Rightarrow> ('k, 'v) lru \<Rightarrow> bool" where
  "lru_inv f c \<longleftrightarrow>
     sizeCalculation c = Some f \<and> 0 < maxSize c \<and> maxEntrySize c = maxSize c \<and>
     distinct (map fst (chain c)) \<and> calculatedSize c = recorded (chain c) \<and>
     calculatedSize c \<le> maxSize c \<and>
     (\<forall>e \<in> set (chain c). snd (snd e) = f (fst (snd e)) \<and> 0 < snd (snd e))"

text \<open>The total resident byte size of the page cache: the sum of the \<^verbatim>\<open>sizeCalculation\<close>
  values of all stored entries.\<close>

definition resident_bytes :: "(nat \<times> nat, cval) lru \<Rightarrow> int" where
  "resident_bytes c = sum_list (map (\<lambda>e. sizeCalculation_page (fst (snd e))) (chain c))"

text \<open>A call on the page cache, as the handlers make them; a \<^verbatim>\<open>set\<close> that throws leaves the
  cache as it was.\<close>

datatype cache_call = CacheSet "nat \<times> nat" cval | CacheGet "nat \<times> nat" | CacheDelete "nat \<times> nat"

fun perform :: "cache_call \<Rightarrow> (nat \<times> nat, cval) lru \<Rightarrow> (nat \<times> nat, cval) lru option" where
  "perform (CacheSet k v) c =
     (case lru_set identical k v c of
        None \<Rightarrow> None
      | Some (Inl e) \<Rightarrow> Some c
      | Some (Inr c') \<Rightarrow> Some c')"
| "perform (CacheGet k) c = Some (snd (lru_get k c))"
| "perform (CacheDelete k) c = Some (lru_delete k c)"

fun perform_all ::
  "cache_call list \<Rightarrow> (nat \<times> nat, cval) lru \<Rightarrow> (nat \<times> nat, cval) lru option" where
  "perform_all [] c = Some c"
| "perform_all (x # xs) c = (case perform x c of None \<Rightarrow> None | Some c' \<Rightarrow> perform_all xs c')"

text \<open>The page cache exists, with capacity \<open>cap\<close>, and its resident bytes are what
  \<^verbatim>\<open>calculatedSize\<close> says and within the capacity.\<close>

definition cache_bounded :: "int \<Rightarrow> state \<Rightarrow> bool" where
  "cache_bounded cap s \<longleftrightarrow>
     (\<exists>c. cache s = Some c \<and> maxSize c = cap \<and> calculatedSize c = resident_bytes c \<and>
          resident_bytes c \<le> cap)"

text \<open>The page cache is as \<^verbatim>\<open>init\<close> makes it, with capacity \<open>cap\<close> and no bound on the number
  of entries, and its invariant holds.\<close>

definition cache_ok :: "int \<Rightarrow> state \<Rightarrow> bool" where
  "cache_ok cap s \<longleftrightarrow>
     (\<exists>c. cache s = Some c \<and> maxSize c = cap \<and> max_opt c = 0 \<and> lru_inv sizeCalculation_page c)"

text \<open>\<open>P\<close> holds of every state a handler reaches, at each suspension and at its end,
  whenever it holds of the states in which the handler is resumed.\<close>

primrec throughout :: "(state \<Rightarrow> bool) \<Rightarrow> 'a step \<Rightarrow> bool" where
  "throughout P (Done x s) = P s"
| "throughout P (Throw e s) = P s"
| "throughout P Hang = True"
| "throughout P (AwaitProbe f s k) = (P s \<and> (\<forall>r s'. P s' \<longrightarrow> throughout P (k r s')))"
| "throughout P (AwaitData p s k) = (P s \<and> (\<forall>r s'. P s' \<longrightarrow> throughout P (k r s')))"
| "throughout P (Pause s k) = (P s \<and> (\<forall>s'. P s' \<longrightarrow> throughout P (k s')))"

text \<open>\<^verbatim>\<open>peek(k)\<close> of \<^verbatim>\<open>LRUCache\<close>: the stored value, without touching the order.\<close>

definition peek :: "'k \<Rightarrow> ('k, 'v) lru \<Rightarrow> 'v option" where
  "peek k c = map_option fst (map_of (chain c) k)"

text \<open>Every error a handler throws is in \<open>E\<close>, provided the rejections it gets at its
  \<^verbatim>\<open>yield\<close>s are.\<close>

primrec raises_only :: "error set \<Rightarrow> 'a step \<Rightarrow> bool" where
  "raises_only E (Done x s) = True"
| "raises_only E (Throw e s) = (e \<in> E)"
| "raises_only E Hang = True"
| "raises_only E (AwaitProbe f s k) =
     (\<forall>r s'. (\<forall>e. r = Inl e \<longrightarrow> e \<in> E) \<longrightarrow> raises_only E (k r s'))"
| "raises_only E (AwaitData p s k) =
     (\<forall>r s'. (\<forall>e. r = Inl e \<longrightarrow> e \<in> E) \<longrightarrow> raises_only E (k r s'))"
| "raises_only E (Pause s k) = (\<forall>s'. raises_only E (k s'))"

definition read_errors :: "error set" where
  "read_errors = {TypeError, RangeError, InvalidHTTPResponse, FetchRejected, SyntaxError}"

text \<open>
  A remote database of 8192 bytes whose header (bytes 16 and 17, big-endian) gives the
  page size 1024, a server for it (\<^verbatim>\<open>HEAD\<close>: 200 with \<^verbatim>\<open>Content-Length\<close>; \<^verbatim>\<open>GET\<close>: 206 with
  the bytes of the range that exist), and the states of a little-endian worker after
  \<^verbatim>\<open>init\<close> without options (\<open>db_init\<close>), after \<^verbatim>\<open>xOpen\<close> of the database (\<open>db_opened\<close>) and
  after a first \<^verbatim>\<open>xRead\<close> of its page 0 (\<open>db_read0\<close>).
\<close>

definition db_file :: "byte list" where
  "db_file = replicate 16 0 @ [4, 0] @ replicate 8174 7"

definition db_server :: network where
  "db_server =
     \<lparr>head_reply = (\<lambda>f u. HeadResponse 200 (Numeric 8192)),
      get_reply = (\<lambda>f (u, a, b). GetResponse 206 (take (nat (b - a + 1)) (drop (nat a) db_file)))\<rparr>"

definition db_init :: state where
  "db_init =
     \<lparr>options = None,
      files = \<lparr>max_opt = 32, maxSize = 0, maxEntrySize = 0, sizeCalculation = None,
                chain = [], calculatedSize = 0\<rparr>,
      cache = Some \<lparr>max_opt = 0, maxSize = 1048576, maxEntrySize = 1048576,
                     sizeCalculation = Some sizeCalculation_page, chain = [],
                     calculatedSize = 0\<rparr>,
      objects = (\<lambda>_. no_entry), nextId = 1, probes = [], loads = [], swapNeeded = True\<rparr>"

definition db_opened :: state where
  "db_opened =
     db_init
       \<lparr>files := (files db_init)\<lparr>chain := [(''db'', FileEntry 1, 0)]\<rparr>,
        objects := (\<lambda>_. no_entry)(1 := \<lparr>url = ''db'', fsize = 8192, pageSize = None\<rparr>),
        nextId := 2, probes := [(''db'', Opened 1)]\<rparr>"

definition db_page0 :: "byte list" where
  "db_page0 = replicate 16 0 @ [4, 0] @ replicate 1006 7"

definition db_read0 :: state where
  "db_read0 =
     db_opened
       \<lparr>cache := Some \<lparr>max_opt = 0, maxSize = 1048576, maxEntrySize = 1048576,
                        sizeCalculation = Some sizeCalculation_page,
                        chain = [((1, 0), U8 db_page0, 1024)], calculatedSize = 1024\<rparr>,
        objects := (\<lambda>_. no_entry)(1 := \<lparr>url = ''db'', fsize = 8192, pageSize = Some 1024\<rparr>),
        loads := [((''db'', 0, 1023), Loaded db_page0)]\<rparr>"

text \<open>A cache without size tracking, as the file registry is.\<close>

definition plain :: "('k, 'v) lru \<Rightarrow> bool" where
  "plain c \<longleftrightarrow> maxEntrySize c = 0 \<and> sizeCalculation c = None"




text \<open>A server that answers every probe with 404 and no \<^verbatim>\<open>Content-Length\<close>, and a network
  on which every request fails.\<close>

definition not_found_server :: network where
  "not_found_server =
     \<lparr>head_reply = (\<lambda>f u. HeadResponse 404 Absent), get_reply = (\<lambda>f rq. GetFails)\<rparr>"


definition unreachable_server :: network where
  "unreachable_server = \<lparr>head_reply = (\<lambda>f u. HeadFails), get_reply = (\<lambda>f rq. GetFails)\<rparr>"


text \<open>The registry holds under \<open>u\<close> the promise of the probe \<open>f\<close>, which is rejected
  with \<open>e\<close>.\<close>

definition poisoned :: "string \<Rightarrow> nat \<Rightarrow> error \<Rightarrow> state \<Rightarrow> bool" where
  "poisoned u f e s \<longleftrightarrow> peek u (files s) = Some (FilePromise f) \<and> probe_state s f = Some (Inl e)"


text \<open>
  What a read that misses the cache and downloads a segment returns, by the answer to its
  request: the rejection of the \<^verbatim>\<open>fetch\<close>, the error for an empty body, or the requested
  range copied out of the body (\<open>copy_out\<close>, lines 1467 to 1469); and the state in which
  the answer leaves the request.
\<close>

definition copy_out :: "nat \<Rightarrow> nat \<Rightarrow> nat \<Rightarrow> byte list \<Rightarrow> byte list \<Rightarrow> error + int \<times> byte list" where
  "copy_out off n pageStart b buf =
     (case buffer_set buf (subarray (int off - int pageStart) (int off - int pageStart + int n) b) of
        Inl e \<Rightarrow> Inl e
      | Inr buf' \<Rightarrow> Inr (0, buf'))"

definition fetch_result ::
  "network \<Rightarrow> nat \<Rightarrow> string \<times> int \<times> int \<Rightarrow> nat \<Rightarrow> nat \<Rightarrow> nat \<Rightarrow> byte list
     \<Rightarrow> error + int \<times> byte list" where
  "fetch_result net f rq off n pageStart buf =
     (case get_reply net f rq of
        GetFails \<Rightarrow> Inl FetchRejected
      | GetResponse st b \<Rightarrow>
          if b = [] then Inl InvalidHTTPResponse else copy_out off n pageStart b buf)"

definition fetch_status :: "network \<Rightarrow> nat \<Rightarrow> string \<times> int \<times> int \<Rightarrow> load_status" where
  "fetch_status net f rq =
     (case get_reply net f rq of GetFails \<Rightarrow> LoadFailed | GetResponse st b \<Rightarrow> Loaded b)"

text \<open>The value is not a promise: no download it depends on is in flight.\<close>

definition no_promise :: "cval option \<Rightarrow> bool" where
  "no_promise x = (case x of Some (Promise q) \<Rightarrow> False | _ \<Rightarrow> True)"

text \<open>
  \<^verbatim>\<open>chunkSize\<close> as lines 1421 to 1436 compute it for a miss on \<open>page\<close> when no promise is
  met: \<^verbatim>\<open>entry.pageSize\<close>, or twice the \<^verbatim>\<open>byteLength\<close> of the array found for the previous
  page, directly or through the page number stored for it. \<^verbatim>\<open>if (prev)\<close> is false for the
  page number 0.
\<close>

definition chunk_size :: "nat \<Rightarrow> nat \<Rightarrow> nat \<Rightarrow> (nat \<times> nat, cval) lru \<Rightarrow> nat" where
  "chunk_size p i page c =
     (if page = 0 then p
      else case peek (i, page - 1) c of
             Some (U8 b) \<Rightarrow> length b * 2
           | Some (Num r) \<Rightarrow>
               if r = 0 then p
               else (case peek (i, r) c of Some (U8 b) \<Rightarrow> length b * 2 | _ \<Rightarrow> p)
           | _ \<Rightarrow> p)"

text \<open>What the page cache holds under a key, and: it holds the promise \<open>q\<close>, which is
  rejected.\<close>

definition cached :: "nat \<times> nat \<Rightarrow> state \<Rightarrow> cval option" where
  "cached key s = (case cache s of None \<Rightarrow> None | Some c \<Rightarrow> peek key c)"

definition rejected :: "nat \<times> nat \<Rightarrow> promise \<Rightarrow> state \<Rightarrow> bool" where
  "rejected key q s \<longleftrightarrow>
     cached key s = Some (Promise q) \<and> promise_state s q = Some (Inl FetchRejected)"

text \<open>
  A read of page \<open>k\<close> of file \<open>i\<close> misses the cache, no promise being involved: nothing is
  stored for the page, or a page number whose page does not hold an array (lines 1396 to
  1419). And: no promise is met when the miss looks at the page before \<open>k\<close> (lines 1424 to
  1431); no download that the miss would wait for is in flight or has failed.
\<close>

definition misses :: "nat \<Rightarrow> nat \<Rightarrow> (nat \<times> nat, cval) lru \<Rightarrow> bool" where
  "misses i k c =
     (case peek (i, k) c of
        None \<Rightarrow> True
      | Some (Num r) \<Rightarrow>
          (case peek (i, r) c of None \<Rightarrow> True | Some (Num r') \<Rightarrow> True | Some _ \<Rightarrow> False)
      | Some _ \<Rightarrow> False)"

definition quiet_prev :: "nat \<Rightarrow> nat \<Rightarrow> (nat \<times> nat, cval) lru \<Rightarrow> bool" where
  "quiet_prev i k c \<longleftrightarrow>
     k = 0 \<or>
     (no_promise (peek (i, k - 1) c) \<and>
      (\<forall>r. peek (i, k - 1) c = Some (Num r) \<longrightarrow> no_promise (peek (i, r) c)))"

text \<open>The state \<open>db_read0\<close> after a read of page 5 whose download failed.\<close>

definition db_failed5 :: state where
  "db_failed5 =
     db_read0
       \<lparr>cache := Some \<lparr>max_opt = 0, maxSize = 1048576, maxEntrySize = 1048576,
                        sizeCalculation = Some sizeCalculation_page,
                        chain = [((1, 0), U8 db_page0, 1024), ((1, 5), Promise (PFetch 1), 4)],
                        calculatedSize = 1028\<rparr>,
        loads := [((''db'', 0, 1023), Loaded db_page0), ((''db'', 5120, 6143), LoadFailed)]\<rparr>"

text \<open>
  \<open>j\<close> is the least number of entries to drop from the front of the list (the least
  recently used ones) so that the rest and \<open>sz\<close> more bytes are within \<open>cap\<close>; and
  \<^verbatim>\<open>set(k, v)\<close> drops that many entries, having taken out the entry of \<open>k\<close> if there is one,
  and puts \<open>k\<close> with \<open>v\<close> at the most recently used end.
\<close>

definition least_drop :: "int \<Rightarrow> int \<Rightarrow> ('k \<times> 'v \<times> int) list \<Rightarrow> nat \<Rightarrow> bool" where
  "least_drop cap sz es j \<longleftrightarrow>
     j \<le> length es \<and> (\<forall>i<j. recorded (drop i es) + sz > cap) \<and> recorded (drop j es) + sz \<le> cap"

definition inserts_lru :: "int \<Rightarrow> nat \<times> nat \<Rightarrow> cval \<Rightarrow> (nat \<times> nat, cval) lru \<Rightarrow> bool" where
  "inserts_lru cap k v c \<longleftrightarrow>
     (\<exists>j. least_drop cap (sizeCalculation_page v) (unlink k (chain c)) j \<and>
          lru_set identical k v c =
            Some (Inr (c\<lparr>chain := drop j (unlink k (chain c)) @ [(k, v, sizeCalculation_page v)],
                         calculatedSize :=
                           recorded (drop j (unlink k (chain c))) + sizeCalculation_page v\<rparr>)))"

text \<open>The worker after \<^verbatim>\<open>init\<close> with \<^verbatim>\<open>cacheSize: 1\<close>, and a page cache of 1024 bytes holding
  page 1 (400 bytes) and, used after it, page 0 (600 bytes) of file 1.\<close>

definition kb_init :: state where
  "kb_init = snd (init (Some \<lparr>maxPageSize = None, cacheSize = Some 1\<rparr>) (initial_state True))"

definition kb_cache :: "(nat \<times> nat, cval) lru" where
  "kb_cache =
     \<lparr>max_opt = 0, maxSize = 1024, maxEntrySize = 1024,
      sizeCalculation = Some sizeCalculation_page,
      chain = [((1, 1), U8 (replicate 400 0), 400), ((1, 0), U8 (replicate 600 0), 600)],
      calculatedSize = 1000\<rparr>"

text \<open>
  The values a cache holds, and the request a page-cache promise belongs to. A state is
  \<open>sound\<close> when the page cache is as \<^verbatim>\<open>init\<close> makes it and its invariant holds, the
  registry is a cache without size tracking, and every promise stored in either of them
  is the promise of a request that was made. \<open>sound_obj\<close> adds a property of the file
  entries.
\<close>

definition stored :: "('k, 'v) lru \<Rightarrow> 'v set" where
  "stored c = (\<lambda>e. fst (snd e)) ` set (chain c)"

definition promise_index :: "promise \<Rightarrow> nat" where
  "promise_index q = (case q of PFetch f \<Rightarrow> f | PThen f _ \<Rightarrow> f)"

definition sound :: "int \<Rightarrow> state \<Rightarrow> bool" where
  "sound cap s \<longleftrightarrow>
     cache_ok cap s \<and> plain (files s) \<and>
     (\<forall>c q. cache s = Some c \<and> Promise q \<in> stored c \<longrightarrow> promise_index q < length (loads s)) \<and>
     (\<forall>f. FilePromise f \<in> stored (files s) \<longrightarrow> f < length (probes s))"

definition sound_obj :: "int \<Rightarrow> ((nat \<Rightarrow> file_entry) \<Rightarrow> bool) \<Rightarrow> state \<Rightarrow> bool" where
  "sound_obj cap Q s \<longleftrightarrow> sound cap s \<and> Q (objects s)"

text \<open>A handler run alone, the network answering, comes to an end, in a state that
  satisfies \<open>W\<close>.\<close>

definition finishes :: "(state \<Rightarrow> bool) \<Rightarrow> network \<Rightarrow> 'a step \<Rightarrow> bool" where
  "finishes W net st \<longleftrightarrow> (\<exists>r s'. run net st = Some (r, s') \<and> W s')"

text \<open>\<^verbatim>\<open>entry = yield entry\<close> gives the entry \<open>i\<close>, at once: \<open>e\<close> is the entry, or the promise
  of a probe that has resolved with it.\<close>

definition resolved :: "fval \<Rightarrow> nat \<Rightarrow> state \<Rightarrow> bool" where
  "resolved e i s \<longleftrightarrow>
     (case e of FileEntry j \<Rightarrow> j = i | FilePromise f \<Rightarrow> probe_state s f = Some (Inr i))"

section \<open>Properties of the LRU cache\<close>

lemma recorded_simps [simp]:
  "recorded [] = 0"
  "recorded (e # es) = snd (snd e) + recorded es"
  "recorded (es @ fs) = recorded es + recorded fs"
  by (simp_all add: recorded_def)

text \<open>The eviction loop of \<^verbatim>\<open>addItemSize\<close> ends, and leaves \<open>evict_to\<close> of the entries before
  the one being inserted.\<close>

lemma evict_while_spec:
  assumes "chain c = es @ [new]" "calculatedSize c = recorded es" "0 \<le> limit"
    "maxEntrySize c \<noteq> 0"
  shows "evict_while limit c =
           Some (c\<lparr>chain := evict_to limit es @ [new],
                    calculatedSize := recorded (evict_to limit es)\<rparr>)"
  using assms
proof (induction es arbitrary: c)
  case Nil
  then show ?case by (subst evict_while.simps) simp
next
  case (Cons e es)
  show ?case
  proof (cases "recorded (e # es) > limit")
    case True
    obtain k v sz where e: "e = (k, v, sz)" by (cases e) auto
    let ?c = "evict c"
    have c1: "chain ?c = es @ [new]" "calculatedSize ?c = recorded es" "maxEntrySize ?c \<noteq> 0"
      using Cons.prems e by (simp_all add: evict_def removeItemSize_def)
    have "evict_while limit c = evict_while limit ?c"
      using True Cons.prems by (subst evict_while.simps) simp
    also have "\<dots> = Some (?c\<lparr>chain := evict_to limit es @ [new],
                                calculatedSize := recorded (evict_to limit es)\<rparr>)"
      using Cons.IH [OF c1(1) c1(2) Cons.prems(3) c1(3)] .
    also have "\<dots> = Some (c\<lparr>chain := evict_to limit (e # es) @ [new],
                                calculatedSize := recorded (evict_to limit (e # es))\<rparr>)"
      using True Cons.prems e by (simp add: evict_def removeItemSize_def)
    finally show ?thesis .
  next
    case False
    then show ?thesis using Cons.prems by (subst evict_while.simps) simp
  qed
qed

lemma evict_to_fits: "0 \<le> limit \<Longrightarrow> recorded (evict_to limit es) \<le> limit"
  by (induction es) auto

lemma evict_to_drop:
  "\<exists>j. evict_to limit es = drop j es \<and> j \<le> length es \<and> (\<forall>i<j. recorded (drop i es) > limit)"
proof (induction es)
  case Nil
  then show ?case by simp
next
  case (Cons e es)
  show ?case
  proof (cases "recorded (e # es) > limit")
    case True
    from Cons obtain j where j: "evict_to limit es = drop j es" "j \<le> length es"
      "\<forall>i<j. recorded (drop i es) > limit" by blast
    have "\<forall>i<Suc j. recorded (drop i (e # es)) > limit"
    proof (intro allI impI)
      fix i assume "i < Suc j"
      then show "recorded (drop i (e # es)) > limit"
        using True j(3) by (cases i) auto
    qed
    then show ?thesis using True j by (intro exI [of _ "Suc j"]) simp
  next
    case False
    then show ?thesis by (intro exI [of _ 0]) simp
  qed
qed

lemma set_evict_to: "set (evict_to limit es) \<subseteq> set es"
  by (induction es) auto

lemma distinct_evict_to: "distinct (map fst es) \<Longrightarrow> distinct (map fst (evict_to limit es))"
  by (induction es) auto

lemma set_unlink: "set (unlink k es) = {e \<in> set es. fst e \<noteq> k}"
  by (auto simp: unlink_def)

lemma distinct_unlink: "distinct (map fst es) \<Longrightarrow> distinct (map fst (unlink k es))"
  by (simp add: unlink_def distinct_map_filter)

lemma unlink_absent: "map_of es k = None \<Longrightarrow> unlink k es = es"
  by (induction es) (auto simp: unlink_def split: if_splits)

lemma recorded_unlink:
  "distinct (map fst es) \<Longrightarrow> map_of es k = Some (v, sz)
     \<Longrightarrow> recorded (unlink k es) = recorded es - sz"
proof (induction es)
  case Nil
  then show ?case by simp
next
  case (Cons e es)
  show ?case
  proof (cases "fst e = k")
    case True
    then have "map_of es k = None" using Cons.prems(1) by (auto simp: map_of_eq_None_iff)
    then have "unlink k es = es" by (rule unlink_absent)
    then show ?thesis using True Cons.prems by (cases e) (auto simp: unlink_def)
  next
    case False
    then show ?thesis using Cons by (cases e) (auto simp: unlink_def)
  qed
qed

lemma unlink_append_self: "unlink k (es @ [(k, e)]) = unlink k es"
  by (simp add: unlink_def)

lemma unlink_idem: "unlink k (unlink k es) = unlink k es"
  by (simp add: unlink_def)

lemma map_of_unlink: "map_of (unlink k es) k' = (if k' = k then None else map_of es k')"
  by (induction es) (auto simp: unlink_def)

lemma keys_unlink: "k \<notin> fst ` set (unlink k es)"
  by (auto simp: unlink_def)

lemma lru_inv_evict: "lru_inv f c \<Longrightarrow> lru_inv f (evict c)"
  by (cases "chain c")
    (auto simp: lru_inv_def evict_def removeItemSize_def intro: order_less_imp_le)

lemma lru_inv_moveToTail: "lru_inv f c \<Longrightarrow> lru_inv f (moveToTail k c)"
proof (cases "map_of (chain c) k")
  case None
  assume "lru_inv f c"
  then show ?thesis using None by (simp add: moveToTail_def)
next
  case (Some e)
  assume a: "lru_inv f c"
  obtain v sz where e: "e = (v, sz)" by (cases e) auto
  have mem: "(k, v, sz) \<in> set (chain c)" using Some e by (auto dest: map_of_SomeD)
  have d: "distinct (map fst (chain c))" using a by (simp add: lru_inv_def)
  have r: "recorded (unlink k (chain c)) = recorded (chain c) - sz"
    using recorded_unlink [OF d] Some e by simp
  have "distinct (map fst (unlink k (chain c) @ [(k, e)]))"
    using distinct_unlink [OF d, of k] keys_unlink [of k "chain c"] by simp
  then show ?thesis
    using a Some e r mem by (auto simp: lru_inv_def moveToTail_def set_unlink)
qed

lemma lru_inv_get: "lru_inv f c \<Longrightarrow> lru_inv f (snd (lru_get k c))"
  by (auto simp: lru_get_def lru_inv_moveToTail split: option.splits)

lemma lru_inv_delete: "lru_inv f c \<Longrightarrow> lru_inv f (lru_delete k c)"
proof -
  assume a: "lru_inv f c"
  show ?thesis
  proof (cases "map_of (chain c) k")
    case None
    then show ?thesis using a by (simp add: lru_delete_def)
  next
    case (Some e)
    obtain v sz where e: "e = (v, sz)" by (cases e) auto
    have mem: "(k, v, sz) \<in> set (chain c)" using Some e by (auto dest: map_of_SomeD)
    have d: "distinct (map fst (chain c))" using a by (simp add: lru_inv_def)
    have r: "recorded (unlink k (chain c)) = recorded (chain c) - sz"
      using recorded_unlink [OF d] Some e by simp
    have pos: "0 < sz" using a mem by (auto simp: lru_inv_def)
    show ?thesis
      using a Some e r pos distinct_unlink [OF d, of k]
      by (auto simp: lru_inv_def lru_delete_def lru_clear_def removeItemSize_def set_unlink)
  qed
qed

lemma lru_inv_newIndex: "lru_inv f c \<Longrightarrow> lru_inv f (newIndex c)"
  by (simp add: newIndex_def lru_inv_evict)

lemma keys_newIndex: "fst ` set (chain (newIndex c)) \<subseteq> fst ` set (chain c)"
  by (cases "chain c") (auto simp: newIndex_def evict_def removeItemSize_def)

lemma addItemSize_spec:
  assumes "chain c = es @ [new]" "calculatedSize c = recorded es" "sz \<le> maxSize c"
    "maxEntrySize c \<noteq> 0" "maxSize c \<noteq> 0"
  shows "addItemSize sz c =
           Some (c\<lparr>chain := evict_to (maxSize c - sz) es @ [new],
                    calculatedSize := recorded (evict_to (maxSize c - sz) es) + sz\<rparr>)"
proof -
  have "0 \<le> maxSize c - sz" using assms(3) by simp
  from evict_while_spec [OF assms(1) assms(2) this assms(4)]
  show ?thesis using assms(4,5) by (simp add: addItemSize_def)
qed

lemma lru_inv_append:
  assumes a: "lru_inv f c" and es: "set es \<subseteq> set (chain c)" "distinct (map fst es)"
    and k: "k \<notin> fst ` set es" and v: "0 < f v" and fit: "recorded es + f v \<le> maxSize c"
  shows "lru_inv f (c\<lparr>chain := es @ [(k, v, f v)], calculatedSize := recorded es + f v\<rparr>)"
  using assms by (auto simp: lru_inv_def)

text \<open>\<^verbatim>\<open>set\<close> of a new key that fits: the least recently used entries are dropped until the
  rest and the new entry fit, and the new entry becomes the most recently used.\<close>

lemma lru_set_add:
  assumes a: "lru_inv f c" and v: "0 < f v" "f v \<le> maxSize c" and k: "map_of (chain c) k = None"
  shows "lru_set same k v c =
           Some (Inr ((newIndex c)
             \<lparr>chain := evict_to (maxSize c - f v) (chain (newIndex c)) @ [(k, v, f v)],
              calculatedSize := recorded (evict_to (maxSize c - f v) (chain (newIndex c))) + f v\<rparr>))"
proof -
  let ?c1 = "newIndex c"
  let ?c2 = "?c1\<lparr>chain := chain ?c1 @ [(k, v, f v)]\<rparr>"
  have i1: "lru_inv f ?c1" using a by (rule lru_inv_newIndex)
  have m: "maxSize ?c1 = maxSize c" "maxEntrySize ?c1 = maxSize c"
    using a i1
    by (auto simp: newIndex_def evict_def removeItemSize_def lru_inv_def split: list.splits)
  have rs: "requireSize c v = Inr (f v)"
    using a v by (auto simp: requireSize_def lru_inv_def isPosInt_def)
  have "addItemSize (f v) ?c2 =
          Some (?c2\<lparr>chain := evict_to (maxSize ?c2 - f v) (chain ?c1) @ [(k, v, f v)],
                    calculatedSize := recorded (evict_to (maxSize ?c2 - f v) (chain ?c1)) + f v\<rparr>)"
    using i1 v m by (intro addItemSize_spec) (auto simp: lru_inv_def)
  then show ?thesis
    using rs k v a m by (simp add: lru_set_def lru_inv_def Let_def)
qed

lemma lru_set_update:
  assumes a: "lru_inv f c" and v: "0 < f v" "f v \<le> maxSize c"
    and k: "map_of (chain c) k = Some (old, osz)" and ne: "\<not> same v old"
  shows "lru_set same k v c =
           Some (Inr (c\<lparr>chain := evict_to (maxSize c - f v) (unlink k (chain c)) @ [(k, v, f v)],
                    calculatedSize :=
                      recorded (evict_to (maxSize c - f v) (unlink k (chain c))) + f v\<rparr>))"
proof -
  let ?c1 = "moveToTail k c"
  let ?c2 = "(removeItemSize osz ?c1)\<lparr>chain := unlink k (chain ?c1) @ [(k, v, f v)]\<rparr>"
  have d: "distinct (map fst (chain c))" using a by (simp add: lru_inv_def)
  have ch1: "chain ?c1 = unlink k (chain c) @ [(k, old, osz)]"
    using k by (simp add: moveToTail_def)
  have u: "unlink k (chain ?c1) = unlink k (chain c)"
    by (simp add: ch1 unlink_append_self unlink_idem)
  have r: "recorded (unlink k (chain c)) = recorded (chain c) - osz"
    using recorded_unlink [OF d k] .
  have m: "maxSize ?c2 = maxSize c" "maxEntrySize ?c2 = maxSize c" "maxSize c \<noteq> 0"
    using a k by (auto simp: moveToTail_def removeItemSize_def lru_inv_def)
  have cs: "calculatedSize ?c2 = recorded (unlink k (chain c))"
    using a k r by (auto simp: moveToTail_def removeItemSize_def lru_inv_def)
  have rs: "requireSize c v = Inr (f v)"
    using a v by (auto simp: requireSize_def lru_inv_def isPosInt_def)
  have "addItemSize (f v) ?c2 =
          Some (?c2\<lparr>chain := evict_to (maxSize ?c2 - f v) (unlink k (chain c)) @ [(k, v, f v)],
                    calculatedSize :=
                      recorded (evict_to (maxSize ?c2 - f v) (unlink k (chain c))) + f v\<rparr>)"
    using cs m v u by (intro addItemSize_spec) auto
  then show ?thesis
    using rs k v a m ne u
    by (simp add: lru_set_def lru_inv_def Let_def moveToTail_def removeItemSize_def)
qed

lemma lru_set_inv:
  assumes a: "lru_inv f c"
  shows "if 0 < f v then (\<exists>c'. lru_set same k v c = Some (Inr c') \<and> lru_inv f c' \<and>
                               maxSize c' = maxSize c \<and> max_opt c' = max_opt c)
         else lru_set same k v c = Some (Inl TypeError)"
proof (cases "0 < f v")
  case False
  then show ?thesis using a by (simp add: lru_set_def requireSize_def lru_inv_def isPosInt_def)
next
  case pos: True
  have rs: "requireSize c v = Inr (f v)"
    using a pos by (auto simp: requireSize_def lru_inv_def isPosInt_def)
  have d: "distinct (map fst (chain c))" using a by (simp add: lru_inv_def)
  show ?thesis
  proof (cases "f v \<le> maxSize c")
    case False
    then have "lru_set same k v c = Some (Inr (lru_delete k c))"
      using rs a by (simp add: lru_set_def lru_inv_def)
    moreover have "maxSize (lru_delete k c) = maxSize c" "max_opt (lru_delete k c) = max_opt c"
      by (auto simp: lru_delete_def lru_clear_def removeItemSize_def split: option.splits)
    ultimately show ?thesis using pos lru_inv_delete [OF a] by simp
  next
    case fit: True
    show ?thesis
    proof (cases "map_of (chain c) k")
      case None
      let ?c1 = "newIndex c"
      let ?E = "evict_to (maxSize c - f v) (chain ?c1)"
      have i1: "lru_inv f ?c1" using a by (rule lru_inv_newIndex)
      have m: "maxSize ?c1 = maxSize c" "max_opt ?c1 = max_opt c"
        by (auto simp: newIndex_def evict_def removeItemSize_def split: list.splits)
      have kn: "k \<notin> fst ` set (chain c)" using None by (simp add: map_of_eq_None_iff)
      then have "k \<notin> fst ` set ?E"
        using keys_newIndex [of c] set_evict_to [of "maxSize c - f v" "chain ?c1"] by blast
      moreover have "distinct (map fst ?E)"
        using i1 by (intro distinct_evict_to) (simp add: lru_inv_def)
      moreover have "recorded ?E + f v \<le> maxSize ?c1"
        using evict_to_fits [of "maxSize c - f v" "chain ?c1"] fit m by simp
      ultimately have
        "lru_inv f (?c1\<lparr>chain := ?E @ [(k, v, f v)], calculatedSize := recorded ?E + f v\<rparr>)"
        using i1 pos set_evict_to [of "maxSize c - f v" "chain ?c1"]
        by (intro lru_inv_append) auto
      then show ?thesis using pos m lru_set_add [OF a pos fit None, of same] by simp
    next
      case (Some e)
      obtain old osz where e: "e = (old, osz)" by (cases e) auto
      show ?thesis
      proof (cases "same v old")
        case True
        then have "lru_set same k v c = Some (Inr (moveToTail k c))"
          using rs a fit Some e by (simp add: lru_set_def lru_inv_def)
        moreover have "maxSize (moveToTail k c) = maxSize c" "max_opt (moveToTail k c) = max_opt c"
          by (simp_all add: moveToTail_def split: option.splits)
        ultimately show ?thesis using pos lru_inv_moveToTail [OF a] by simp
      next
        case False
        let ?E = "evict_to (maxSize c - f v) (unlink k (chain c))"
        have sub: "set ?E \<subseteq> set (chain c)"
          using set_evict_to [of "maxSize c - f v" "unlink k (chain c)"]
          by (auto simp: set_unlink)
        have "k \<notin> fst ` set ?E"
          using keys_unlink [of k "chain c"]
            set_evict_to [of "maxSize c - f v" "unlink k (chain c)"] by blast
        moreover have "distinct (map fst ?E)" by (intro distinct_evict_to distinct_unlink d)
        moreover have "recorded ?E + f v \<le> maxSize c"
          using evict_to_fits [of "maxSize c - f v" "unlink k (chain c)"] fit by simp
        ultimately have
          "lru_inv f (c\<lparr>chain := ?E @ [(k, v, f v)], calculatedSize := recorded ?E + f v\<rparr>)"
          using a pos sub by (intro lru_inv_append) auto
        moreover have "map_of (chain c) k = Some (old, osz)" using Some e by simp
        ultimately show ?thesis
          using pos lru_set_update [of f c v k old osz same] a fit False by simp
      qed
    qed
  qed
qed

lemma sizeCalculation_page_pos: "0 < sizeCalculation_page v \<longleftrightarrow> v \<noteq> U8 []"
  by (cases v) (auto simp: sizeCalculation_page_def)

lemma lru_inv_resident:
  assumes "lru_inv sizeCalculation_page c"
  shows "calculatedSize c = resident_bytes c" "resident_bytes c \<le> maxSize c"
proof -
  have "\<forall>e \<in> set es. snd (snd e) = sizeCalculation_page (fst (snd e))
          \<Longrightarrow> recorded es = sum_list (map (\<lambda>e. sizeCalculation_page (fst (snd e))) es)" for es :: "((nat \<times> nat) \<times> cval \<times> int) list"
    by (induction es) auto
  then have "recorded (chain c) = resident_bytes c"
    using assms by (simp add: lru_inv_def resident_bytes_def)
  then show "calculatedSize c = resident_bytes c" "resident_bytes c \<le> maxSize c"
    using assms by (simp_all add: lru_inv_def)
qed

lemma perform_inv:
  assumes "lru_inv sizeCalculation_page c"
  shows "\<exists>c'. perform x c = Some c' \<and> lru_inv sizeCalculation_page c' \<and>
              maxSize c' = maxSize c \<and> max_opt c' = max_opt c"
proof (cases x)
  case (CacheSet k v)
  show ?thesis
    using lru_set_inv [OF assms, of v identical k] assms CacheSet
    by (cases "0 < sizeCalculation_page v") auto
next
  case (CacheGet k)
  have "maxSize (snd (lru_get k c)) = maxSize c" "max_opt (snd (lru_get k c)) = max_opt c"
    by (simp_all add: lru_get_def moveToTail_def split: option.splits)
  then show ?thesis using CacheGet lru_inv_get [OF assms] by simp
next
  case (CacheDelete k)
  have "maxSize (lru_delete k c) = maxSize c" "max_opt (lru_delete k c) = max_opt c"
    by (auto simp: lru_delete_def lru_clear_def removeItemSize_def split: option.splits)
  then show ?thesis using CacheDelete lru_inv_delete [OF assms] by simp
qed

lemma perform_all_inv:
  "lru_inv sizeCalculation_page c
     \<Longrightarrow> \<exists>c'. perform_all xs c = Some c' \<and> lru_inv sizeCalculation_page c' \<and>
              maxSize c' = maxSize c \<and> max_opt c' = max_opt c"
proof (induction xs arbitrary: c)
  case Nil
  then show ?case by simp
next
  case (Cons x xs)
  from perform_inv [OF Cons.prems, of x] obtain c1 where
    c1: "perform x c = Some c1" "lru_inv sizeCalculation_page c1" "maxSize c1 = maxSize c"
      "max_opt c1 = max_opt c"
    by blast
  from Cons.IH [OF c1(2)] c1 show ?case by auto
qed

lemma init_cache:
  assumes "init opts s = (None, s')"
  shows "\<exists>c. cache s' = Some c \<and> chain c = [] \<and> maxSize c = cacheSize_of s' * 1024 \<and>
             max_opt c = 0 \<and> lru_inv sizeCalculation_page c"
  using assms
  by (auto simp: init_def new_LRUCache_def Let_def lru_inv_def isPosInt_def cacheSize_of_def
      split: if_splits)

lemma lru_set_same:
  assumes a: "lru_inv f c" and v: "0 < f v" "f v \<le> maxSize c"
    and k: "map_of (chain c) k = Some (old, osz)" and same: "same v old"
  shows "lru_set same k v c = Some (Inr (c\<lparr>chain := unlink k (chain c) @ [(k, old, osz)]\<rparr>))"
proof -
  have rs: "requireSize c v = Inr (f v)"
    using a v by (auto simp: requireSize_def lru_inv_def isPosInt_def)
  show ?thesis using same k rs a v(2) by (simp add: lru_set_def lru_inv_def moveToTail_def)
qed

lemma inserts_lru_holds:
  assumes a: "lru_inv sizeCalculation_page c" and m: "max_opt c = 0"
    and v: "v \<noteq> U8 []" "sizeCalculation_page v \<le> maxSize c"
    and k: "\<And>old sz. map_of (chain c) k = Some (old, sz) \<Longrightarrow> \<not> identical v old"
  shows "inserts_lru (maxSize c) k v c"
proof -
  let ?sz = "sizeCalculation_page v"
  let ?es = "unlink k (chain c)"
  have pos: "0 < ?sz" using v(1) by (simp add: sizeCalculation_page_pos)
  from evict_to_drop [of "maxSize c - ?sz" ?es] obtain j where
    j: "evict_to (maxSize c - ?sz) ?es = drop j ?es" "j \<le> length ?es"
       "\<forall>i<j. recorded (drop i ?es) > maxSize c - ?sz"
    by blast
  have "recorded (drop j ?es) \<le> maxSize c - ?sz"
    using evict_to_fits [of "maxSize c - ?sz" ?es] v(2) j(1) by simp
  then have ld: "least_drop (maxSize c) ?sz ?es j" using j by (auto simp: least_drop_def)
  have "lru_set identical k v c =
      Some (Inr (c\<lparr>chain := drop j ?es @ [(k, v, ?sz)],
                   calculatedSize := recorded (drop j ?es) + ?sz\<rparr>))"
  proof (cases "map_of (chain c) k")
    case None
    have ni: "newIndex c = c" using m by (simp add: newIndex_def)
    have "?es = chain c" using None by (rule unlink_absent)
    then show ?thesis using lru_set_add [OF a pos v(2) None, of identical] ni j(1) by simp
  next
    case (Some e)
    obtain old osz where e: "e = (old, osz)" by (cases e) auto
    have ne: "\<not> identical v old" using k Some e by simp
    have km: "map_of (chain c) k = Some (old, osz)" using Some e by simp
    from lru_set_update [of sizeCalculation_page c v k old osz identical] a pos v(2) km ne j(1)
    show ?thesis by simp
  qed
  then show ?thesis using ld unfolding inserts_lru_def by blast
qed

lemma lru_get_hit:
  "map_of (chain c) k = Some (v, sz) \<Longrightarrow>
     lru_get k c = (Some v, c\<lparr>chain := unlink k (chain c) @ [(k, v, sz)]\<rparr>)"
  by (simp add: lru_get_def moveToTail_def)

section \<open>The page cache stays within its capacity\<close>

lemma throughout_bind:
  assumes g: "\<And>x s. P s \<Longrightarrow> throughout P (g x s)"
  shows "throughout P st \<Longrightarrow> throughout P (bind st g)"
proof (induction st)
  case (AwaitProbe f s k)
  have "throughout P (bind (k r s') g)" if "P s'" for r s'
    using AwaitProbe.IH [of "k r" "k r s'"] AwaitProbe.prems that by auto
  then show ?case using AwaitProbe.prems by simp
next
  case (AwaitData p s k)
  have "throughout P (bind (k r s') g)" if "P s'" for r s'
    using AwaitData.IH [of "k r" "k r s'"] AwaitData.prems that by auto
  then show ?case using AwaitData.prems by simp
next
  case (Pause s k)
  have "throughout P (bind (k s') g)" if "P s'" for s'
    using Pause.IH [OF rangeI] Pause.prems that by auto
  then show ?case using Pause.prems by simp
qed (simp_all add: g)

lemma throughout_await_call:
  assumes g: "\<And>x s. P s \<Longrightarrow> throughout P (g x s)"
  shows "throughout P st \<Longrightarrow> throughout P (await_call st g)"
proof (induction st)
  case (AwaitProbe f s k)
  have "throughout P (await_call (k r s') g)" if "P s'" for r s'
    using AwaitProbe.IH [of "k r" "k r s'"] AwaitProbe.prems that by auto
  then show ?case using AwaitProbe.prems by simp
next
  case (AwaitData p s k)
  have "throughout P (await_call (k r s') g)" if "P s'" for r s'
    using AwaitData.IH [of "k r" "k r s'"] AwaitData.prems that by auto
  then show ?case using AwaitData.prems by simp
next
  case (Pause s k)
  have "throughout P (await_call (k s') g)" if "P s'" for s'
    using Pause.IH [OF rangeI] Pause.prems that by auto
  then show ?case using Pause.prems by simp
qed (simp_all add: g)

lemma throughout_try_catch:
  assumes h: "\<And>e s. P s \<Longrightarrow> throughout P (h e s)"
  shows "throughout P st \<Longrightarrow> throughout P (try_catch st h)"
proof (induction st)
  case (AwaitProbe f s k)
  have "throughout P (try_catch (k r s') h)" if "P s'" for r s'
    using AwaitProbe.IH [of "k r" "k r s'"] AwaitProbe.prems that by auto
  then show ?case using AwaitProbe.prems by simp
next
  case (AwaitData p s k)
  have "throughout P (try_catch (k r s') h)" if "P s'" for r s'
    using AwaitData.IH [of "k r" "k r s'"] AwaitData.prems that by auto
  then show ?case using AwaitData.prems by simp
next
  case (Pause s k)
  have "throughout P (try_catch (k s') h)" if "P s'" for s'
    using Pause.IH [OF rangeI] Pause.prems that by auto
  then show ?case using Pause.prems by simp
qed (simp_all add: h)

lemma cache_ok_frame [simp]:
  "cache_ok cap (s\<lparr>files := fs\<rparr>) = cache_ok cap s"
  "cache_ok cap (s\<lparr>objects := ob\<rparr>) = cache_ok cap s"
  "cache_ok cap (s\<lparr>probes := pr\<rparr>) = cache_ok cap s"
  "cache_ok cap (s\<lparr>loads := ld\<rparr>) = cache_ok cap s"
  "cache_ok cap (s\<lparr>nextId := ni\<rparr>) = cache_ok cap s"
  by (simp_all add: cache_ok_def)

lemma max_opt_moveToTail [simp]: "max_opt (moveToTail k c) = max_opt c"
  by (simp add: moveToTail_def split: option.splits prod.splits)

lemma max_opt_lru_get [simp]: "max_opt (snd (lru_get k c)) = max_opt c"
  by (simp add: lru_get_def split: option.splits)

lemma max_opt_lru_delete [simp]: "max_opt (lru_delete k c) = max_opt c"
  by (auto simp: lru_delete_def lru_clear_def removeItemSize_def split: option.splits)

lemma maxSize_lru_get [simp]: "maxSize (snd (lru_get k c)) = maxSize c"
  by (simp add: lru_get_def moveToTail_def split: option.splits)

lemma maxSize_lru_delete [simp]: "maxSize (lru_delete k c) = maxSize c"
  by (auto simp: lru_delete_def lru_clear_def removeItemSize_def split: option.splits)

lemma thr_cache_get:
  assumes "cache_ok cap s" "\<And>v s'. cache_ok cap s' \<Longrightarrow> throughout (cache_ok cap) (k v s')"
  shows "throughout (cache_ok cap) (cache_get key s k)"
proof -
  from assms(1) obtain c where c: "cache s = Some c" "maxSize c = cap" "lru_inv sizeCalculation_page c"
    "max_opt c = 0"
    by (auto simp: cache_ok_def)
  have "cache_ok cap (s\<lparr>cache := Some (snd (lru_get key c))\<rparr>)"
    using c lru_inv_get [OF c(3), of key] by (simp add: cache_ok_def)
  then show ?thesis using c assms(2) by (simp add: cache_get_def case_prod_beta)
qed

lemma thr_cache_set:
  assumes "cache_ok cap s" "\<And>s'. cache_ok cap s' \<Longrightarrow> throughout (cache_ok cap) (k s')"
  shows "throughout (cache_ok cap) (cache_set key v s k)"
proof -
  from assms(1) obtain c where c: "cache s = Some c" "maxSize c = cap" "lru_inv sizeCalculation_page c"
    "max_opt c = 0"
    by (auto simp: cache_ok_def)
  show ?thesis
  proof (cases "0 < sizeCalculation_page v")
    case True
    with lru_set_inv [OF c(3), of v identical key] obtain c' where
      "lru_set identical key v c = Some (Inr c')" "lru_inv sizeCalculation_page c'" "maxSize c' = maxSize c"
      "max_opt c' = max_opt c"
      by auto
    then show ?thesis using c assms(2) by (simp add: cache_set_def cache_ok_def)
  next
    case False
    with lru_set_inv [OF c(3), of v identical key] have "lru_set identical key v c = Some (Inl TypeError)"
      by auto
    then show ?thesis using c assms(1) by (simp add: cache_set_def)
  qed
qed

lemma thr_cache_delete:
  assumes "cache_ok cap s" "\<And>s'. cache_ok cap s' \<Longrightarrow> throughout (cache_ok cap) (k s')"
  shows "throughout (cache_ok cap) (cache_delete key s k)"
proof -
  from assms(1) obtain c where c: "cache s = Some c" "maxSize c = cap" "lru_inv sizeCalculation_page c"
    "max_opt c = 0"
    by (auto simp: cache_ok_def)
  have "cache_ok cap (s\<lparr>cache := Some (lru_delete key c)\<rparr>)"
    using c lru_inv_delete [OF c(3), of key] by (simp add: cache_ok_def)
  then show ?thesis using c assms(2) by (simp add: cache_delete_def)
qed

lemma thr_cache_set_all:
  assumes "cache_ok cap s" "\<And>s'. cache_ok cap s' \<Longrightarrow> throughout (cache_ok cap) (k s')"
  shows "throughout (cache_ok cap) (cache_set_all keys v s k)"
  using assms
proof (induction keys arbitrary: s)
  case Nil
  then show ?case by simp
next
  case (Cons key keys)
  show ?case
    by (simp, rule thr_cache_set [OF Cons.prems(1)], rule Cons.IH, assumption, rule Cons.prems(2))
qed

lemma thr_yield_if_promise:
  assumes "cache_ok cap s" "\<And>v s'. cache_ok cap s' \<Longrightarrow> throughout (cache_ok cap) (k v s')"
  shows "throughout (cache_ok cap) (yield_if_promise d s k)"
  using assms by (auto simp: yield_if_promise_def split: option.splits cval.splits sum.splits)

lemma thr_await_entry:
  assumes "cache_ok cap s" "\<And>i s'. cache_ok cap s' \<Longrightarrow> throughout (cache_ok cap) (k i s')"
  shows "throughout (cache_ok cap) (await_entry e s k)"
  using assms by (auto simp: await_entry_def split: fval.splits sum.splits)

lemma thr_files_set:
  assumes "cache_ok cap s" "\<And>s'. cache_ok cap s' \<Longrightarrow> throughout (cache_ok cap) (k s')"
  shows "throughout (cache_ok cap) (files_set u v s k)"
  using assms by (auto simp: files_set_def split: option.splits sum.splits)

lemma thr_xRead_finish:
  "cache_ok cap s \<Longrightarrow> throughout (cache_ok cap) (xRead_finish off n ps data buf s)"
  by (auto simp: xRead_finish_def Let_def split: cval.splits sum.splits)

lemma thr_xRead_fetch:
  assumes "cache_ok cap s"
  shows "throughout (cache_ok cap) (xRead_fetch u off n buf i page ps chunk s)"
proof (cases "following_pages page chunk (ToNumber (pageSize (objects s i)))")
  case None
  then show ?thesis by (simp add: xRead_fetch_def)
next
  case (Some js)
  have fin: "\<And>r s4. cache_ok cap s4 \<Longrightarrow> throughout (cache_ok cap)
         (case r of Inl e \<Rightarrow> Throw e s4
          | Inr (U8 b) \<Rightarrow> if length b = 0 then Throw InvalidHTTPResponse s4
               else cache_set (i, page) (U8 b) s4 (\<lambda>s5. cache_set_all (map (Pair i) js) (Num page) s5
                       (\<lambda>s6. xRead_finish off n ps (U8 b) buf s6))
          | Inr _ \<Rightarrow> Throw InvalidHTTPResponse s4)"
    by (auto split: sum.splits cval.splits intro!: thr_cache_set thr_cache_set_all thr_xRead_finish)
  show ?thesis
    using assms Some
    by (auto simp: xRead_fetch_def fetch_get_def intro!: thr_cache_set thr_cache_set_all fin)
qed

lemma thr_xRead_prev:
  assumes "cache_ok cap s"
  shows "throughout (cache_ok cap) (xRead_prev u off n buf i page ps chunk prev s)"
proof -
  have after: "\<And>prev2 s2. cache_ok cap s2 \<Longrightarrow> throughout (cache_ok cap)
      (yield_if_promise prev2 s2 (\<lambda>prev3 s3. xRead_fetch u off n buf i page ps
          (case prev3 of Some (U8 b) \<Rightarrow> length b * 2 | _ \<Rightarrow> chunk) s3))"
    by (intro thr_yield_if_promise thr_xRead_fetch)
  show ?thesis
    using assms
    by (auto simp: xRead_prev_def Let_def split: option.splits cval.splits
        intro!: thr_cache_get after)
qed

lemma thr_xRead_miss:
  assumes "cache_ok cap s"
  shows "throughout (cache_ok cap) (xRead_miss u off n buf i page ps s)"
proof -
  have wp: "\<And>prev s1 chunk. cache_ok cap s1 \<Longrightarrow> throughout (cache_ok cap)
      (if truthy prev then yield_if_promise prev s1 (xRead_prev u off n buf i page ps chunk)
       else xRead_fetch u off n buf i page ps chunk s1)"
    by (auto intro!: thr_yield_if_promise thr_xRead_prev thr_xRead_fetch)
  show ?thesis
  proof (cases "page > 0")
    case True
    then show ?thesis using assms by (simp add: xRead_miss_def Let_def) (intro thr_cache_get wp)
  next
    case False
    then show ?thesis using assms by (simp add: xRead_miss_def Let_def truthy_def thr_xRead_fetch)
  qed
qed

lemma thr_xRead_cache:
  assumes "cache_ok cap s"
  shows "throughout (cache_ok cap) (xRead_cache u off n buf i p page s)"
  unfolding xRead_cache_def
  by (rule thr_cache_get [OF assms], rule thr_yield_if_promise, assumption)
    (auto split: option.splits cval.splits
      intro!: thr_cache_get thr_yield_if_promise thr_xRead_miss thr_xRead_finish)

lemma thr_xRead_body:
  "cache_ok cap s \<Longrightarrow> throughout (cache_ok cap) (xRead_body u off n buf i s)"
  by (auto simp: xRead_body_def Let_def split: option.splits intro!: thr_xRead_cache)

lemma cache_ok_set_pageSize [simp]: "cache_ok cap (set_pageSize i v s) = cache_ok cap s"
  by (simp add: set_pageSize_def)

lemma thr_xRead:
  "cache_ok cap s \<Longrightarrow> throughout (cache_ok cap) (xRead d u off n buf s)"
proof (induction d arbitrary: s off n buf)
  case 0
  then show ?case by simp
next
  case (Suc d)
  have disc: "\<And>i s2 off' n'. cache_ok cap s2 \<Longrightarrow> throughout (cache_ok cap)
      (await_call (xRead d u (Some 16) (Some 2) [0, 0] (set_pageSize i 1024 s2))
         (\<lambda>(r, pageDataBuffer) s3.
            if r \<noteq> 0 then Done (r, buf) s3
            else (let ps = unat (ntoh16 (swapNeeded s3) (Uint16_view (swapNeeded s3) pageDataBuffer));
                      s4 = set_pageSize i ps s3;
                      rest = (\<lambda>s5. if ps > maxPageSize_of s5 then Throw PageSizeOverMaximum s5
                                     else xRead_body u off' n' buf i s5)
                  in if ps \<noteq> 1024 then cache_delete (i, 0) s4 rest else rest s4)))"
    by (rule throughout_await_call [rotated], rule Suc.IH)
      (auto simp: Let_def intro!: thr_cache_delete thr_xRead_body)
  show ?case
    using Suc.prems
    by (auto simp: Let_def case_prod_beta split: option.splits
        intro!: thr_await_entry thr_xRead_body disc)
qed

lemma thr_xOpen: "cache_ok cap s \<Longrightarrow> throughout (cache_ok cap) (xOpen u s)"
  by (auto simp: xOpen_def Let_def case_prod_beta fetch_head_def split: option.splits sum.splits
      intro!: thr_await_entry thr_files_set)

lemma thr_xAccess: "cache_ok cap s \<Longrightarrow> throughout (cache_ok cap) (xAccess u con s)"
  unfolding xAccess_def
  by (intro throughout_bind throughout_await_call throughout_try_catch thr_xOpen) simp_all

lemma thr_xFilesize: "cache_ok cap s \<Longrightarrow> throughout (cache_ok cap) (xFilesize u con s)"
  by (auto simp: xFilesize_def Let_def case_prod_beta split: option.splits
      intro!: thr_await_entry)

lemma thr_handler: "cache_ok cap s \<Longrightarrow> throughout (cache_ok cap) (handler d m con s)"
  by (cases m)
    (auto simp: handler_def split: sum.splits
      intro!: throughout_bind thr_xOpen thr_xAccess thr_xRead thr_xFilesize)

lemma thr_workMessage: "cache_ok cap s \<Longrightarrow> throughout (cache_ok cap) (workMessage d m con s)"
  unfolding workMessage_def
  by (intro throughout_bind throughout_await_call throughout_try_catch thr_handler) auto

lemma cache_deliver_head [simp]: "cache (deliver_head f out s) = cache s"
  by (auto simp: deliver_head_def head_then_def Let_def split: head_outcome.splits header.splits)

lemma cache_deliver_get [simp]: "cache (deliver_get f out s) = cache s"
  by (auto simp: deliver_get_def Let_def split: get_outcome.splits)

lemma throughout_reached: "throughout P t \<Longrightarrow> P s \<Longrightarrow> P (reached s t)"
  by (cases t) (auto simp: reached_def)

lemma dispatch_inv:
  assumes "cache_ok cap (fst cfg)" "\<forall>t \<in> set (snd cfg). throughout (cache_ok cap) t"
  shows "cache_ok cap (fst (dispatch d ev cfg)) \<and>
         (\<forall>t \<in> set (snd (dispatch d ev cfg)). throughout (cache_ok cap) t)"
proof (cases "Hang \<in> set (snd cfg)")
  case True
  then show ?thesis using assms by (simp add: dispatch_def)
next
  case False
  show ?thesis
  proof (cases ev)
    case (Receive m con)
    have "throughout (cache_ok cap) (workMessage d m con (fst cfg))"
      using assms(1) by (rule thr_workMessage)
    then show ?thesis
      using False Receive assms by (auto simp: dispatch_def Let_def intro: throughout_reached)
  next
    case (HeadArrives f out)
    then show ?thesis using False assms by (simp add: dispatch_def cache_ok_def)
  next
    case (GetArrives f out)
    then show ?thesis using False assms by (simp add: dispatch_def cache_ok_def)
  next
    case (Resume j)
    show ?thesis
    proof (cases "j < length (snd cfg)")
      case False
      then show ?thesis using Resume assms \<open>Hang \<notin> set (snd cfg)\<close> by (simp add: dispatch_def resume_def)
    next
      case True
      then have tj: "throughout (cache_ok cap) (snd cfg ! j)" using assms(2) by simp
      have upd: "\<And>t. throughout (cache_ok cap) t \<Longrightarrow>
          \<forall>t' \<in> set ((snd cfg)[j := t]). throughout (cache_ok cap) t'"
        using assms(2) by (auto dest!: set_update_subset_insert [THEN subsetD])
      show ?thesis
      proof (cases "snd cfg ! j")
        case (AwaitProbe f s0 k)
        then have k: "\<And>r. throughout (cache_ok cap) (k r (fst cfg))" using tj assms(1) by simp
        show ?thesis
          using Resume True AwaitProbe assms \<open>Hang \<notin> set (snd cfg)\<close> k upd
          by (auto simp: dispatch_def resume_def Let_def split: option.splits
              intro: throughout_reached)
      next
        case (AwaitData p s0 k)
        then have k: "\<And>r. throughout (cache_ok cap) (k r (fst cfg))" using tj assms(1) by simp
        show ?thesis
          using Resume True AwaitData assms \<open>Hang \<notin> set (snd cfg)\<close> k upd
          by (auto simp: dispatch_def resume_def Let_def split: option.splits
              intro: throughout_reached)
      next
        case (Pause s0 k)
        then have k: "throughout (cache_ok cap) (k (fst cfg))" using tj assms(1) by simp
        show ?thesis
          using Resume True Pause assms \<open>Hang \<notin> set (snd cfg)\<close> k upd
          by (auto simp: dispatch_def resume_def Let_def intro: throughout_reached)
      qed (use Resume True assms \<open>Hang \<notin> set (snd cfg)\<close> in \<open>simp_all add: dispatch_def resume_def\<close>)
    qed
  qed
qed

lemma dispatch_all_inv:
  assumes "cache_ok cap (fst cfg)" "\<forall>t \<in> set (snd cfg). throughout (cache_ok cap) t"
  shows "cache_ok cap (fst (dispatch_all d evs cfg)) \<and>
         (\<forall>t \<in> set (snd (dispatch_all d evs cfg)). throughout (cache_ok cap) t)"
  using assms unfolding dispatch_all_def
proof (induction evs arbitrary: cfg)
  case Nil
  then show ?case by simp
next
  case (Cons ev evs)
  from dispatch_inv [OF Cons.prems, of d ev]
  have "cache_ok cap (fst (dispatch d ev cfg))"
    "\<forall>t \<in> set (snd (dispatch d ev cfg)). throughout (cache_ok cap) t" by simp_all
  from Cons.IH [OF this] show ?case by simp
qed

lemma cache_ok_bounded: "cache_ok cap s \<Longrightarrow> cache_bounded cap s"
  using lru_inv_resident by (fastforce simp: cache_ok_def cache_bounded_def)


section \<open>Handlers run alone\<close>

lemma run_bind:
  "run net (bind st g) =
     (case run net st of
        None \<Rightarrow> None
      | Some (Inl e, s) \<Rightarrow> Some (Inl e, s)
      | Some (Inr x, s) \<Rightarrow> run net (g x s))"
proof (induction st)
  case (AwaitProbe f s k)
  have "\<And>r s'. run net (bind (k r s') g) =
     (case run net (k r s') of None \<Rightarrow> None | Some (Inl e, s) \<Rightarrow> Some (Inl e, s)
      | Some (Inr x, s) \<Rightarrow> run net (g x s))"
    by (rule AwaitProbe.IH [OF rangeI rangeI])
  then show ?case by (simp add: Let_def split: option.splits)
next
  case (AwaitData p s k)
  have "\<And>r s'. run net (bind (k r s') g) =
     (case run net (k r s') of None \<Rightarrow> None | Some (Inl e, s) \<Rightarrow> Some (Inl e, s)
      | Some (Inr x, s) \<Rightarrow> run net (g x s))"
    by (rule AwaitData.IH [OF rangeI rangeI])
  then show ?case by (simp add: Let_def split: option.splits)
next
  case (Pause s k)
  show ?case using Pause.IH [OF rangeI] by simp
qed simp_all

lemma run_await_call:
  "run net (await_call st g) =
     (case run net st of
        None \<Rightarrow> None
      | Some (Inl e, s) \<Rightarrow> Some (Inl e, s)
      | Some (Inr x, s) \<Rightarrow> run net (g x s))"
proof (induction st)
  case (AwaitProbe f s k)
  have "\<And>r s'. run net (await_call (k r s') g) =
     (case run net (k r s') of None \<Rightarrow> None | Some (Inl e, s) \<Rightarrow> Some (Inl e, s)
      | Some (Inr x, s) \<Rightarrow> run net (g x s))"
    by (rule AwaitProbe.IH [OF rangeI rangeI])
  then show ?case by (simp add: Let_def split: option.splits)
next
  case (AwaitData p s k)
  have "\<And>r s'. run net (await_call (k r s') g) =
     (case run net (k r s') of None \<Rightarrow> None | Some (Inl e, s) \<Rightarrow> Some (Inl e, s)
      | Some (Inr x, s) \<Rightarrow> run net (g x s))"
    by (rule AwaitData.IH [OF rangeI rangeI])
  then show ?case by (simp add: Let_def split: option.splits)
next
  case (Pause s k)
  show ?case using Pause.IH [OF rangeI] by simp
qed simp_all

lemma run_try_catch:
  "run net (try_catch st h) =
     (case run net st of
        None \<Rightarrow> None
      | Some (Inl e, s) \<Rightarrow> run net (h e s)
      | Some (Inr x, s) \<Rightarrow> Some (Inr x, s))"
proof (induction st)
  case (AwaitProbe f s k)
  have "\<And>r s'. run net (try_catch (k r s') h) =
     (case run net (k r s') of None \<Rightarrow> None | Some (Inl e, s) \<Rightarrow> run net (h e s)
      | Some (Inr x, s) \<Rightarrow> Some (Inr x, s))"
    by (rule AwaitProbe.IH [OF rangeI rangeI])
  then show ?case by (simp add: Let_def split: option.splits)
next
  case (AwaitData p s k)
  have "\<And>r s'. run net (try_catch (k r s') h) =
     (case run net (k r s') of None \<Rightarrow> None | Some (Inl e, s) \<Rightarrow> run net (h e s)
      | Some (Inr x, s) \<Rightarrow> Some (Inr x, s))"
    by (rule AwaitData.IH [OF rangeI rangeI])
  then show ?case by (simp add: Let_def split: option.splits)
next
  case (Pause s k)
  show ?case using Pause.IH [OF rangeI] by simp
qed simp_all

lemma probe_state_errors: "probe_state s f = Some (Inl e) \<Longrightarrow> e \<in> {FetchRejected, SyntaxError}"
  by (auto simp: probe_state_def split: if_splits probe_status.splits)

lemma promise_state_errors: "promise_state s p = Some (Inl e) \<Longrightarrow> e = FetchRejected"
  by (cases p) (auto split: load_status.splits)

lemma run_raises_only:
  assumes "FetchRejected \<in> E" "SyntaxError \<in> E"
  shows "raises_only E st \<Longrightarrow> run net st = Some (Inl e, s') \<Longrightarrow> e \<in> E"
proof (induction st)
  case (AwaitProbe f s k)
  let ?s = "deliver_head f (head_reply net f (fst (probes s ! f))) s"
  from AwaitProbe.prems(2) obtain r where r: "probe_state ?s f = Some r" "run net (k r ?s) = Some (Inl e, s')"
    by (auto simp: Let_def split: option.splits)
  have "\<forall>e. r = Inl e \<longrightarrow> e \<in> E" using r(1) assms probe_state_errors by blast
  then have "raises_only E (k r ?s)" using AwaitProbe.prems(1) by simp
  from AwaitProbe.IH [OF rangeI rangeI this r(2)] show ?case .
next
  case (AwaitData p s k)
  let ?f = "case p of PFetch f \<Rightarrow> f | PThen f _ \<Rightarrow> f"
  let ?s = "deliver_get ?f (get_reply net ?f (fst (loads s ! ?f))) s"
  from AwaitData.prems(2) obtain r where r: "promise_state ?s p = Some r" "run net (k r ?s) = Some (Inl e, s')"
    by (auto simp: Let_def split: option.splits)
  have "\<forall>e. r = Inl e \<longrightarrow> e \<in> E" using r(1) assms promise_state_errors by blast
  then have "raises_only E (k r ?s)" using AwaitData.prems(1) by simp
  from AwaitData.IH [OF rangeI rangeI this r(2)] show ?case .
next
  case (Pause s k)
  from Pause.IH [OF rangeI, of s] Pause.prems show ?case by simp
qed auto

lemma lru_get_eq: "lru_get k c = (peek k c, moveToTail k c)"
  by (auto simp: lru_get_def peek_def moveToTail_def split: option.splits)

lemma lru_set_error: "lru_set same k v c = Some (Inl e) \<Longrightarrow> e = TypeError"
  by (auto simp: lru_set_def requireSize_def Let_def
      split: sum.splits if_splits option.splits prod.splits)

lemma ro_cache_get:
  assumes "TypeError \<in> E" "\<And>v s'. raises_only E (k v s')"
  shows "raises_only E (cache_get key s k)"
  using assms by (simp add: cache_get_def case_prod_beta split: option.splits)

lemma ro_cache_set:
  assumes "TypeError \<in> E" "\<And>s'. raises_only E (k s')"
  shows "raises_only E (cache_set key v s k)"
  using assms by (auto simp: cache_set_def split: option.splits sum.splits dest: lru_set_error)

lemma ro_cache_set_all:
  assumes "TypeError \<in> E" "\<And>s'. raises_only E (k s')"
  shows "raises_only E (cache_set_all keys v s k)"
proof (induction keys arbitrary: s)
  case Nil
  then show ?case by (simp add: assms)
next
  case (Cons key keys)
  show ?case by (simp, rule ro_cache_set [OF assms(1)], rule Cons.IH)
qed

lemma ro_yield_if_promise:
  assumes "\<And>v s'. raises_only E (k v s')"
  shows "raises_only E (yield_if_promise d s k)"
  using assms by (auto simp: yield_if_promise_def split: option.splits cval.splits sum.splits)

lemma ro_xRead_finish: "raises_only read_errors (xRead_finish off n ps data buf s)"
  by (auto simp: xRead_finish_def buffer_set_def read_errors_def Let_def split: cval.splits)

lemma ro_xRead_fetch: "raises_only read_errors (xRead_fetch u off n buf i page ps chunk s)"
proof -
  have t: "TypeError \<in> read_errors" by (simp add: read_errors_def)
  have fin: "\<And>r s4 js. (\<forall>e. r = Inl e \<longrightarrow> e \<in> read_errors) \<Longrightarrow> raises_only read_errors
         (case r of Inl e \<Rightarrow> Throw e s4
          | Inr (U8 b) \<Rightarrow> if length b = 0 then Throw InvalidHTTPResponse s4
               else cache_set (i, page) (U8 b) s4 (\<lambda>s5. cache_set_all (map (Pair i) js) (Num page) s5
                       (\<lambda>s6. xRead_finish off n ps (U8 b) buf s6))
          | Inr _ \<Rightarrow> Throw InvalidHTTPResponse s4)"
    by (auto split: sum.splits cval.splits intro!: ro_cache_set ro_cache_set_all ro_xRead_finish t)
      (simp_all add: read_errors_def)
  show ?thesis
    by (auto simp: xRead_fetch_def fetch_get_def split: option.splits
        intro!: ro_cache_set ro_cache_set_all t fin)
qed

lemma ro_xRead_prev: "raises_only read_errors (xRead_prev u off n buf i page ps chunk prev s)"
proof -
  have t: "TypeError \<in> read_errors" by (simp add: read_errors_def)
  show ?thesis
    by (auto simp: xRead_prev_def Let_def split: option.splits cval.splits
        intro!: ro_cache_get ro_yield_if_promise ro_xRead_fetch t)
qed

lemma ro_xRead_miss: "raises_only read_errors (xRead_miss u off n buf i page ps s)"
proof -
  have t: "TypeError \<in> read_errors" by (simp add: read_errors_def)
  show ?thesis
    by (auto simp: xRead_miss_def Let_def
        intro!: ro_cache_get ro_yield_if_promise ro_xRead_fetch ro_xRead_prev t)
qed

lemma ro_xRead_cache: "raises_only read_errors (xRead_cache u off n buf i p page s)"
proof -
  have t: "TypeError \<in> read_errors" by (simp add: read_errors_def)
  show ?thesis
    unfolding xRead_cache_def
    by (rule ro_cache_get [OF t], rule ro_yield_if_promise)
      (auto split: option.splits cval.splits
        intro!: ro_cache_get ro_yield_if_promise ro_xRead_miss ro_xRead_finish t)
qed

lemma xRead_known:
  assumes "map_of (chain (files s)) u = Some (FileEntry i, sz)"
    and "pageSize (objects s i) = Some p" "0 < p"
  shows "xRead (Suc d) u (Some off) (Some n) buf s =
           xRead_body u off n buf i (s\<lparr>files := moveToTail u (files s)\<rparr>)"
  using assms by (simp add: lru_get_eq peek_def await_entry_def ToNumber_def)

declare xRead.simps [simp del]


lemma cache_get_eq:
  "cache s = Some c \<Longrightarrow>
     cache_get key s k = k (peek key c) (s\<lparr>cache := Some (moveToTail key c)\<rparr>)"
  by (simp add: cache_get_def lru_get_eq)

lemma moveToTail_absent: "peek k c = None \<Longrightarrow> moveToTail k c = c"
  by (simp add: moveToTail_def peek_def)

lemma peek_moveToTail [simp]: "peek k' (moveToTail k c) = peek k' c"
proof (cases "map_of (chain c) k")
  case None
  then show ?thesis by (simp add: moveToTail_def)
next
  case (Some e)
  then show ?thesis
    by (cases "k' = k")
      (auto simp: peek_def moveToTail_def map_of_unlink map_add_def split: option.splits)
qed

lemma xRead_body_in_page:
  assumes "pageSize (objects s i) = Some p" "0 < p" "\<not> (off div p) * p + p < off + n"
  shows "xRead_body u off n buf i s = xRead_cache u off n buf i p (off div p) s"
  using assms by (simp add: xRead_body_def Let_def)

lemma length_subarray: "0 \<le> b \<Longrightarrow> length (subarray b (b + int n) xs) \<le> n"
  by (auto simp: subarray_def Let_def min_def)

lemma xRead_hit:
  assumes "map_of (chain (files s)) u = Some (FileEntry i, sz)"
    and "pageSize (objects s i) = Some p" "0 < p" "\<not> (off div p) * p + p < off + n"
    and "cache s = Some c" "peek (i, off div p) c = Some (U8 b)" "n \<le> length buf"
  shows "run net (xRead (Suc d) u (Some off) (Some n) buf s) =
           Some (Inr (0, subarray (int (off mod p)) (int (off mod p) + int n) b @
                         drop (length (subarray (int (off mod p)) (int (off mod p) + int n) b)) buf),
                 s\<lparr>files := moveToTail u (files s),
                   cache := Some (moveToTail (i, off div p) c)\<rparr>)"
proof -
  let ?s1 = "s\<lparr>files := moveToTail u (files s)\<rparr>"
  have "int off = int (off div p) * int p + int (off mod p)"
    by (metis div_mult_mod_eq of_nat_add of_nat_mult)
  then have po: "int off - int (off div p) * int p = int (off mod p)" by simp
  have "length (subarray (int (off mod p)) (int (off mod p) + int n) b) \<le> length buf"
    using length_subarray [of "int (off mod p)" n b] assms(7) by simp
  then show ?thesis
    using assms
    by (simp add: xRead_known [OF assms(1-3)] xRead_body_in_page cache_get_eq
        xRead_cache_def yield_if_promise_def xRead_finish_def buffer_set_def po Let_def)
qed

text \<open>The definitions to unfold when a handler is run on a given state, and the
  example states as the handlers reach them.\<close>

lemmas lru_defs = lru_get_def lru_set_def lru_delete_def lru_clear_def moveToTail_def unlink_def
  requireSize_def addItemSize_def evict_def removeItemSize_def newIndex_def isPosInt_def
  evict_while.simps

lemmas io_defs = fetch_head_def fetch_get_def deliver_head_def deliver_get_def head_then_def
  probe_state_def load_state_def

lemmas handler_defs = xOpen_def await_entry_def files_set_def cache_get_def cache_set_def
  cache_delete_def yield_if_promise_def xRead_finish_def xRead_fetch_def xRead_prev_def
  xRead_miss_def xRead_cache_def xRead_body_def xRead.simps subarray_def buffer_set_def
  ToNumber_def following_pages_def truthy_def set_pageSize_def sizeCalculation_page_def
  Uint16_view_def ntoh16_def maxPageSize_of_def cacheSize_of_def

lemmas db_defs = db_init_def db_opened_def db_read0_def db_server_def db_file_def db_page0_def



lemma db_read0_reached:
  "run db_server (xRead (Suc (Suc d)) ''db'' (Some 0) (Some 1024) (replicate 4096 0) db_opened) =
     Some (Inr (0, db_page0 @ replicate 3072 0), db_read0)"
  by (simp add: db_defs lru_defs io_defs handler_defs Let_def)

section \<open>Opening a file\<close>

lemma plain_moveToTail [simp]: "plain (moveToTail k c) = plain c"
  by (simp add: plain_def moveToTail_def split: option.splits)

lemma plain_newIndex [simp]: "plain (newIndex c) = plain c"
  by (auto simp: plain_def newIndex_def evict_def removeItemSize_def split: list.splits)

lemma lru_set_plain_new:
  assumes "plain c" "peek k c = None"
  shows "lru_set same k v c = Some (Inr ((newIndex c)\<lparr>chain := chain (newIndex c) @ [(k, v, 0)]\<rparr>))"
proof -
  have "maxEntrySize (newIndex c) = 0" using assms(1) plain_newIndex [of c] by (simp add: plain_def)
  then show ?thesis
    using assms by (simp add: lru_set_def requireSize_def addItemSize_def plain_def peek_def Let_def)
qed

lemma lru_set_plain_update:
  assumes "plain c" "map_of (chain c) k = Some (old, osz)" "\<not> same v old"
  shows "lru_set same k v c = Some (Inr (c\<lparr>chain := unlink k (chain c) @ [(k, v, 0)]\<rparr>))"
  using assms
  by (simp add: lru_set_def requireSize_def addItemSize_def plain_def Let_def moveToTail_def
      removeItemSize_def unlink_append_self unlink_idem)

lemma peek_absent_newIndex: "peek k c = None \<Longrightarrow> k \<notin> fst ` set (chain (newIndex c))"
proof -
  assume "peek k c = None"
  then have "k \<notin> fst ` set (chain c)" by (simp add: peek_def map_of_eq_None_iff)
  then show ?thesis using keys_newIndex [of c] by blast
qed

lemma peek_appended:
  "k \<notin> fst ` set es \<Longrightarrow> peek k (c\<lparr>chain := es @ [(k, v, sz)]\<rparr>) = Some v"
  by (simp add: peek_def map_add_def map_of_eq_None_iff [THEN iffD2] split: option.splits)

lemma run_xOpen_fresh:
  assumes pl: "plain (files s)" and ab: "peek u (files s) = None"
  shows "\<exists>s'. run net (xOpen u s) =
            Some ((case head_reply net (length (probes s)) u of
                     HeadFails \<Rightarrow> Inl FetchRejected
                   | HeadResponse st Malformed \<Rightarrow> Inl SyntaxError
                   | HeadResponse st _ \<Rightarrow> Inr 0), s') \<and>
            length (probes s') = length (probes s) + 1 \<and> plain (files s') \<and>
            (case head_reply net (length (probes s)) u of
               HeadFails \<Rightarrow> peek u (files s') = Some (FilePromise (length (probes s))) \<and>
                             probe_state s' (length (probes s)) = Some (Inl FetchRejected)
             | HeadResponse st Malformed \<Rightarrow>
                 peek u (files s') = Some (FilePromise (length (probes s))) \<and>
                 probe_state s' (length (probes s)) = Some (Inl SyntaxError)
             | HeadResponse st h \<Rightarrow>
                 peek u (files s') = Some (FileEntry (nextId s)) \<and>
                 url (objects s' (nextId s)) = u \<and>
                 fsize (objects s' (nextId s)) = (case h of Numeric n \<Rightarrow> int n | _ \<Rightarrow> 0) \<and>
                 pageSize (objects s' (nextId s)) = None)"
proof -
  let ?f = "length (probes s)"
  let ?fs1 = "(newIndex (files s))\<lparr>chain := chain (newIndex (files s)) @ [(u, FilePromise ?f, 0)]\<rparr>"
  have g: "lru_get u (files s) = (None, files s)"
    using ab by (simp add: lru_get_eq moveToTail_absent)
  have s1: "lru_set (=) u (FilePromise ?f) (files s) = Some (Inr ?fs1)"
    using lru_set_plain_new [OF pl ab] .
  have pk1: "peek u ?fs1 = Some (FilePromise ?f)"
    using peek_absent_newIndex [OF ab] by (rule peek_appended)
  have pl1: "plain ?fs1" using pl plain_newIndex [of "files s"] by (simp add: plain_def)
  have m1: "map_of (chain ?fs1) u = Some (FilePromise ?f, 0)"
    using peek_absent_newIndex [OF ab]
    by (simp add: map_add_def map_of_eq_None_iff [THEN iffD2] split: option.splits)
  let ?fs2 = "\<lambda>i. ?fs1\<lparr>chain := unlink u (chain ?fs1) @ [(u, FileEntry i, 0)]\<rparr>"
  have s2: "lru_set (=) u (FileEntry i) ?fs1 = Some (Inr (?fs2 i))" for i
    using lru_set_plain_update [OF pl1 m1, of "(=)" "FileEntry i"] by simp
  have pk2: "peek u (?fs2 i) = Some (FileEntry i)" for i
    using keys_unlink [of u "chain ?fs1"] by (rule peek_appended)
  have pl2: "plain (?fs2 i)" for i using pl1 by (simp add: plain_def)
  show ?thesis
  proof (cases "head_reply net ?f u")
    case HeadFails
    then show ?thesis
      using g s1 pk1 pl1
      by (simp add: xOpen_def fetch_head_def files_set_def deliver_head_def probe_state_def Let_def)
  next
    case (HeadResponse st h)
    then show ?thesis
      using g s1 s2 pk1 pk2 pl1 pl2
      by (cases h)
        (simp_all add: xOpen_def fetch_head_def files_set_def deliver_head_def probe_state_def
          head_then_def Let_def)
  qed
qed

lemma deliver_head_settled: "probe_state s f = Some r \<Longrightarrow> deliver_head f out s = s"
  by (auto simp: deliver_head_def probe_state_def split: if_splits probe_status.splits)

lemma deliver_get_settled: "load_state s f \<noteq> Loading \<Longrightarrow> deliver_get f out s = s"
  by (auto simp: deliver_get_def load_state_def split: if_splits)

lemma probe_state_frame [simp]:
  "probe_state (s\<lparr>files := fs\<rparr>) f = probe_state s f"
  "probe_state (s\<lparr>cache := ch\<rparr>) f = probe_state s f"
  "probe_state (s\<lparr>objects := ob\<rparr>) f = probe_state s f"
  "probe_state (s\<lparr>loads := ld\<rparr>) f = probe_state s f"
  by (simp_all add: probe_state_def)

lemma load_state_frame [simp]:
  "load_state (s\<lparr>files := fs\<rparr>) f = load_state s f"
  "load_state (s\<lparr>cache := ch\<rparr>) f = load_state s f"
  "load_state (s\<lparr>objects := ob\<rparr>) f = load_state s f"
  "load_state (s\<lparr>probes := pr\<rparr>) f = load_state s f"
  by (simp_all add: load_state_def)

lemma promise_state_frame [simp]:
  "promise_state (s\<lparr>files := fs\<rparr>) p = promise_state s p"
  "promise_state (s\<lparr>cache := ch\<rparr>) p = promise_state s p"
  "promise_state (s\<lparr>objects := ob\<rparr>) p = promise_state s p"
  "promise_state (s\<lparr>probes := pr\<rparr>) p = promise_state s p"
  by (cases p; simp)+

lemma run_await_entry_settled:
  "probe_state s f = Some r \<Longrightarrow>
     run net (await_entry (FilePromise f) s k) =
       (case r of Inl e \<Rightarrow> Some (Inl e, s) | Inr i \<Rightarrow> run net (k i s))"
  by (simp add: await_entry_def deliver_head_settled split: sum.splits)

lemma run_xOpen_known:
  "peek u (files s) = Some (FileEntry i) \<Longrightarrow>
     run net (xOpen u s) = Some (Inr 0, s\<lparr>files := moveToTail u (files s)\<rparr>)"
  by (simp add: xOpen_def lru_get_eq await_entry_def)

lemma run_xOpen_settled:
  "peek u (files s) = Some (FilePromise f) \<Longrightarrow> probe_state s f = Some r \<Longrightarrow>
     run net (xOpen u s) =
       Some ((case r of Inl e \<Rightarrow> Inl e | Inr i \<Rightarrow> Inr 0), s\<lparr>files := moveToTail u (files s)\<rparr>)"
  by (simp add: xOpen_def lru_get_eq run_await_entry_settled split: sum.splits)

lemma status_of_zero [simp]: "status_of (Number 0) = 0"
  by (simp add: status_of_def)

lemma run_workMessage:
  "run net (workMessage d m con s) =
     (case run net (handler d m con s) of
        None \<Rightarrow> None
      | Some (Inl e, s') \<Rightarrow> Some (Inr (con\<lparr>lock := lock con @ [Store 1, Notify]\<rparr>), s')
      | Some (Inr (r, con'), s') \<Rightarrow>
          Some (Inr (con'\<lparr>lock := lock con' @ [Store (status_of r), Notify]\<rparr>), s'))"
  by (simp add: workMessage_def run_bind run_await_call run_try_catch
      split: option.splits sum.splits prod.splits)

lemma run_handler_xOpen:
  "run net (handler d (XOpen u) con s) =
     (case run net (xOpen u s) of
        None \<Rightarrow> None
      | Some (Inl e, s') \<Rightarrow> Some (Inl e, s')
      | Some (Inr r, s') \<Rightarrow> Some (Inr (Number r, con), s'))"
  by (simp add: handler_def run_bind split: option.splits sum.splits prod.splits)


lemma poisoned_touch: "poisoned u f e s \<Longrightarrow> poisoned u f e (s\<lparr>files := moveToTail u (files s)\<rparr>)"
  by (simp add: poisoned_def)

lemma run_xRead_poisoned:
  assumes "poisoned u f e s"
  shows "run net (xRead (Suc d) u off n buf s) = Some (Inl e, s\<lparr>files := moveToTail u (files s)\<rparr>)"
  using assms by (simp add: xRead.simps poisoned_def lru_get_eq run_await_entry_settled)

lemma run_xFilesize_poisoned:
  assumes "poisoned u f e s"
  shows "run net (xFilesize u con s) = Some (Inl e, s\<lparr>files := moveToTail u (files s)\<rparr>)"
  using assms by (simp add: xFilesize_def poisoned_def lru_get_eq run_await_entry_settled)

lemma run_xOpen_poisoned:
  assumes "poisoned u f e s"
  shows "run net (xOpen u s) = Some (Inl e, s\<lparr>files := moveToTail u (files s)\<rparr>)"
  using assms run_xOpen_settled [of u s f "Inl e" net] by (simp add: poisoned_def)

lemma run_xAccess:
  "run net (xAccess u con s) =
     (case run net (xOpen u s) of
        None \<Rightarrow> None
      | Some (Inl e, s') \<Rightarrow> Some (Inr (0, con\<lparr>shm0 := 0\<rparr>), s')
      | Some (Inr r, s') \<Rightarrow> Some (Inr (0, con\<lparr>shm0 := (if r = 0 then 1 else 0)\<rparr>), s'))"
  by (simp add: xAccess_def run_bind run_await_call run_try_catch
      split: option.splits sum.splits prod.splits)


section \<open>What the handlers return\<close>





lemma raises_only_await_call:
  assumes g: "\<And>x s. raises_only E (g x s)"
  shows "raises_only E st \<Longrightarrow> raises_only E (await_call st g)"
proof (induction st)
  case (AwaitProbe f s k)
  have "raises_only E (await_call (k r s') g)" if "\<forall>e. r = Inl e \<longrightarrow> e \<in> E" for r s'
    using AwaitProbe.IH [OF rangeI rangeI] AwaitProbe.prems that by simp
  then show ?case by simp
next
  case (AwaitData p s k)
  have "raises_only E (await_call (k r s') g)" if "\<forall>e. r = Inl e \<longrightarrow> e \<in> E" for r s'
    using AwaitData.IH [OF rangeI rangeI] AwaitData.prems that by simp
  then show ?case by simp
next
  case (Pause s k)
  have "raises_only E (await_call (k s') g)" for s'
    using Pause.IH [OF rangeI] Pause.prems by simp
  then show ?case by simp
qed (simp_all add: g)






















section \<open>A read that downloads a segment\<close>

lemma lru_set_peek:
  assumes a: "lru_inv f c" and v: "0 < f v" "f v \<le> maxSize c"
    and same: "\<And>old. same v old \<Longrightarrow> v = old"
  shows "\<exists>c'. lru_set same k v c = Some (Inr c') \<and> lru_inv f c' \<and> maxSize c' = maxSize c \<and>
              max_opt c' = max_opt c \<and> peek k c' = Some v"
proof -
  from lru_set_inv [OF a, of v same k] v(1) obtain c' where
    c': "lru_set same k v c = Some (Inr c')" and i': "lru_inv f c'" and m': "maxSize c' = maxSize c"
    and o': "max_opt c' = max_opt c"
    by (simp only: if_True) blast
  have "peek k c' = Some v"
  proof (cases "map_of (chain c) k")
    case None
    then have "peek k c = None" by (simp add: peek_def)
    then have "k \<notin> fst ` set (chain (newIndex c))" by (rule peek_absent_newIndex)
    then have nk: "k \<notin> fst ` set (evict_to (maxSize c - f v) (chain (newIndex c)))"
      using set_evict_to [of "maxSize c - f v" "chain (newIndex c)"] by blast
    have "c' = (newIndex c)
             \<lparr>chain := evict_to (maxSize c - f v) (chain (newIndex c)) @ [(k, v, f v)],
              calculatedSize := recorded (evict_to (maxSize c - f v) (chain (newIndex c))) + f v\<rparr>"
      using c' unfolding lru_set_add [OF a v None, of same] by (simp only: option.inject sum.inject)
    then have "peek k c' = peek k ((newIndex c)
             \<lparr>chain := evict_to (maxSize c - f v) (chain (newIndex c)) @ [(k, v, f v)]\<rparr>)"
      by (simp add: peek_def)
    also have "\<dots> = Some v" using nk by (rule peek_appended)
    finally show ?thesis .
  next
    case (Some e)
    obtain old osz where e: "e = (old, osz)" by (cases e) auto
    show ?thesis
    proof (cases "same v old")
      case True
      then have vo: "v = old" by (rule same)
      have rs: "requireSize c v = Inr (f v)"
        using a v by (auto simp: requireSize_def lru_inv_def isPosInt_def)
      have "lru_set same k v c = Some (Inr (moveToTail k c))"
        using True Some e rs a v(2) by (simp add: lru_set_def lru_inv_def)
      then have "c' = moveToTail k c" using c' by simp
      then have "peek k c' = peek k c" by simp
      also have "\<dots> = Some v" using Some e vo by (simp add: peek_def)
      finally show ?thesis .
    next
      case False
      have nk: "k \<notin> fst ` set (evict_to (maxSize c - f v) (unlink k (chain c)))"
        using keys_unlink [of k "chain c"]
          set_evict_to [of "maxSize c - f v" "unlink k (chain c)"] by blast
      have k: "map_of (chain c) k = Some (old, osz)" using Some e by simp
      have "lru_set same k v c =
           Some (Inr (c\<lparr>chain := evict_to (maxSize c - f v) (unlink k (chain c)) @ [(k, v, f v)],
                    calculatedSize :=
                      recorded (evict_to (maxSize c - f v) (unlink k (chain c))) + f v\<rparr>))"
        using a v k False by (rule lru_set_update)
      then have "c' = c\<lparr>chain := evict_to (maxSize c - f v) (unlink k (chain c)) @ [(k, v, f v)],
                    calculatedSize :=
                      recorded (evict_to (maxSize c - f v) (unlink k (chain c))) + f v\<rparr>"
        using c' by (simp only: option.inject sum.inject)
      then have "peek k c' =
          peek k (c\<lparr>chain := evict_to (maxSize c - f v) (unlink k (chain c)) @ [(k, v, f v)]\<rparr>)"
        by (simp add: peek_def)
      also have "\<dots> = Some v" using nk by (rule peek_appended)
      finally show ?thesis .
    qed
  qed
  then show ?thesis using c' i' m' o' by blast
qed

lemma identical_eq: "identical v old \<Longrightarrow> v = old"
  by (cases v; cases old) auto

lemma cache_set_step:
  assumes "cache_ok cap s" "v \<noteq> U8 []"
  shows "\<exists>c'. cache_set key v s k = k (s\<lparr>cache := Some c'\<rparr>) \<and> cache_ok cap (s\<lparr>cache := Some c'\<rparr>) \<and>
              (sizeCalculation_page v \<le> cap \<longrightarrow> peek key c' = Some v)"
proof -
  from assms(1) obtain c where c: "cache s = Some c" "maxSize c = cap" "lru_inv sizeCalculation_page c"
    "max_opt c = 0"
    by (auto simp: cache_ok_def)
  have pos: "0 < sizeCalculation_page v" using assms(2) by (simp add: sizeCalculation_page_pos)
  show ?thesis
  proof (cases "sizeCalculation_page v \<le> cap")
    case True
    from lru_set_peek [OF c(3) pos, of identical key] True c(2) identical_eq obtain c' where
      "lru_set identical key v c = Some (Inr c')" "lru_inv sizeCalculation_page c'"
      "maxSize c' = maxSize c" "max_opt c' = max_opt c" "peek key c' = Some v"
      by auto
    then show ?thesis using c by (intro exI [of _ c']) (simp add: cache_set_def cache_ok_def)
  next
    case False
    from lru_set_inv [OF c(3), of v identical key] pos obtain c' where
      "lru_set identical key v c = Some (Inr c')" "lru_inv sizeCalculation_page c'"
      "maxSize c' = maxSize c" "max_opt c' = max_opt c"
      by auto
    then show ?thesis using c False by (intro exI [of _ c']) (simp add: cache_set_def cache_ok_def)
  qed
qed

lemma run_xRead_finish:
  "run net (xRead_finish off n ps (U8 b) buf s) = Some (copy_out off n ps b buf, s)"
  by (simp add: xRead_finish_def copy_out_def Let_def split: sum.splits)

lemma cache_set_all_step:
  assumes "cache_ok cap s" "v \<noteq> U8 []"
  shows "\<exists>c'. cache_set_all keys v s k = k (s\<lparr>cache := Some c'\<rparr>) \<and>
              cache_ok cap (s\<lparr>cache := Some c'\<rparr>) \<and>
              (keys = [] \<longrightarrow> cache s = Some c')"
  using assms(1)
proof (induction keys arbitrary: s)
  case Nil
  then obtain c where "cache s = Some c" by (auto simp: cache_ok_def)
  then have eq: "s\<lparr>cache := Some c\<rparr> = s" by simp
  show ?case
  proof (intro exI [of _ c] conjI impI)
    show "cache_set_all [] v s k = k (s\<lparr>cache := Some c\<rparr>)" unfolding eq by simp
    show "cache_ok cap (s\<lparr>cache := Some c\<rparr>)" unfolding eq by (rule Nil)
    show "cache s = Some c" by (rule \<open>cache s = Some c\<close>)
  qed
next
  case (Cons key keys)
  from cache_set_step [OF Cons.prems assms(2), of key "\<lambda>s'. cache_set_all keys v s' k"]
  obtain c1 where c1: "cache_set key v s (\<lambda>s'. cache_set_all keys v s' k) =
      cache_set_all keys v (s\<lparr>cache := Some c1\<rparr>) k" "cache_ok cap (s\<lparr>cache := Some c1\<rparr>)"
    by blast
  from Cons.IH [OF c1(2)] obtain c2 where c2:
    "cache_set_all keys v (s\<lparr>cache := Some c1\<rparr>) k = k (s\<lparr>cache := Some c1, cache := Some c2\<rparr>)"
    "cache_ok cap (s\<lparr>cache := Some c1, cache := Some c2\<rparr>)"
    by blast
  have eq: "s\<lparr>cache := Some c1, cache := Some c2\<rparr> = s\<lparr>cache := Some c2\<rparr>" by simp
  show ?case
  proof (intro exI [of _ c2] conjI impI)
    show "cache_set_all (key # keys) v s k = k (s\<lparr>cache := Some c2\<rparr>)"
      using c1(1) c2(1) unfolding eq by (simp only: cache_set_all.simps)
    show "cache_ok cap (s\<lparr>cache := Some c2\<rparr>)" using c2(2) unfolding eq .
    show "cache s = Some c2" if "key # keys = []" using that by simp
  qed
qed

lemma run_await_fetch:
  assumes l: "loads s = ls @ [(rq, Loading)]" and f: "f = length ls"
  shows "run net (AwaitData (PFetch f) s k) =
           run net (k (case get_reply net f rq of
                         GetFails \<Rightarrow> Inl FetchRejected
                       | GetResponse st b \<Rightarrow> Inr (U8 b))
                      (s\<lparr>loads := ls @ [(rq, fetch_status net f rq)]\<rparr>))"
  using l f
  by (cases "get_reply net (length ls) rq")
    (simp_all add: deliver_get_def load_state_def fetch_status_def Let_def nth_append)

lemma cache_ok_loads [simp]: "cache_ok cap (s\<lparr>loads := l\<rparr>) = cache_ok cap s"
  by (simp add: cache_ok_def)

lemma run_xRead_fetch:
  assumes ok: "cache_ok cap s" and ps: "pageSize (objects s i) = Some p" "0 < p"
  shows "\<exists>c'. run net (xRead_fetch u off n buf i page pst chunk s) =
            Some (fetch_result net (length (loads s)) (u, int pst, int pst + (int chunk - 1)) off n pst buf,
                  s\<lparr>loads := loads s @ [((u, int pst, int pst + (int chunk - 1)),
                       fetch_status net (length (loads s)) (u, int pst, int pst + (int chunk - 1)))],
                    cache := Some c'\<rparr>) \<and>
            maxSize c' = cap \<and> lru_inv sizeCalculation_page c' \<and>
            (chunk \<le> p \<longrightarrow>
               (case get_reply net (length (loads s)) (u, int pst, int pst + (int chunk - 1)) of
                  GetFails \<Rightarrow> 4 \<le> cap \<longrightarrow> peek (i, page) c' = Some (Promise (PFetch (length (loads s))))
                | GetResponse st b \<Rightarrow>
                    b \<noteq> [] \<and> int (length b) \<le> cap \<longrightarrow> peek (i, page) c' = Some (U8 b)))"
proof -
  let ?rq = "(u, int pst, int pst + (int chunk - 1))"
  let ?f = "length (loads s)"
  define js where "js = [page + 1 ..< page + (chunk + p - 1) div p]"
  have fp: "following_pages page chunk (ToNumber (pageSize (objects s i))) = Some js"
    using ps by (simp add: following_pages_def ToNumber_def js_def)
  let ?s1 = "s\<lparr>loads := loads s @ [(?rq, Loading)]\<rparr>"
  let ?k3 = "\<lambda>r s4. case r of
                 Inl e \<Rightarrow> Throw e s4
               | Inr (U8 b) \<Rightarrow>
                   if length b = 0 then Throw InvalidHTTPResponse s4
                   else cache_set (i, page) (U8 b) s4
                          (\<lambda>s5. cache_set_all (map (Pair i) js) (Num page) s5
                             (\<lambda>s6. xRead_finish off n pst (U8 b) buf s6))
               | Inr _ \<Rightarrow> Throw InvalidHTTPResponse s4"
  let ?k2 = "\<lambda>s3. AwaitData (PFetch ?f) s3 ?k3"
  let ?k1 = "\<lambda>s2. cache_set_all (map (Pair i) js) (Promise (PThen ?f page)) s2 ?k2"
  have unf: "xRead_fetch u off n buf i page pst chunk s =
      cache_set (i, page) (Promise (PFetch ?f)) ?s1 ?k1"
    by (simp add: xRead_fetch_def fp fetch_get_def)
  have ok1: "cache_ok cap ?s1" using ok by simp
  from cache_set_step [OF ok1, of "Promise (PFetch ?f)" "(i, page)" ?k1]
  obtain c1 where c1: "cache_set (i, page) (Promise (PFetch ?f)) ?s1 ?k1 = ?k1 (?s1\<lparr>cache := Some c1\<rparr>)"
    and ok2: "cache_ok cap (?s1\<lparr>cache := Some c1\<rparr>)"
    and p1: "4 \<le> cap \<Longrightarrow> peek (i, page) c1 = Some (Promise (PFetch ?f))"
    by (auto simp: sizeCalculation_page_def)
  from cache_set_all_step [OF ok2, of "Promise (PThen ?f page)" "map (Pair i) js" ?k2]
  obtain c2 where c2: "?k1 (?s1\<lparr>cache := Some c1\<rparr>) = ?k2 (?s1\<lparr>cache := Some c1, cache := Some c2\<rparr>)"
    and ok3: "cache_ok cap (?s1\<lparr>cache := Some c1, cache := Some c2\<rparr>)"
    and e2: "js = [] \<Longrightarrow> c2 = c1"
    by auto
  have js: "js = []" if "chunk \<le> p"
  proof -
    have "chunk + p - 1 < 2 * p" using that ps(2) by simp
    then have "(chunk + p - 1) div p < 2" by (rule less_mult_imp_div_less)
    then show ?thesis by (simp add: js_def)
  qed
  let ?s3 = "s\<lparr>loads := loads s @ [(?rq, Loading)], cache := Some c2\<rparr>"
  have s3: "?s1\<lparr>cache := Some c1, cache := Some c2\<rparr> = ?s3" by simp
  let ?st = "fetch_status net ?f ?rq"
  let ?s4 = "s\<lparr>loads := loads s @ [(?rq, ?st)], cache := Some c2\<rparr>"
  have aw: "run net (?k2 ?s3) =
      run net (?k3 (case get_reply net ?f ?rq of
                         GetFails \<Rightarrow> Inl FetchRejected
                       | GetResponse st b \<Rightarrow> Inr (U8 b)) ?s4)"
  proof -
    have "run net (AwaitData (PFetch ?f) ?s3 ?k3) =
        run net (?k3 (case get_reply net ?f ?rq of
                         GetFails \<Rightarrow> Inl FetchRejected
                       | GetResponse st b \<Rightarrow> Inr (U8 b))
                   (?s3\<lparr>loads := loads s @ [(?rq, ?st)]\<rparr>))"
      by (rule run_await_fetch) simp_all
    moreover have "?s3\<lparr>loads := loads s @ [(?rq, ?st)]\<rparr> = ?s4" by simp
    ultimately show ?thesis by (simp only:)
  qed
  have ok4: "cache_ok cap ?s4" using ok3 unfolding s3 by (simp add: cache_ok_def)
  have start: "run net (xRead_fetch u off n buf i page pst chunk s) =
      run net (?k3 (case get_reply net ?f ?rq of
                         GetFails \<Rightarrow> Inl FetchRejected
                       | GetResponse st b \<Rightarrow> Inr (U8 b)) ?s4)"
    unfolding unf c1 c2 s3 aw ..
  show ?thesis
  proof (cases "get_reply net ?f ?rq")
    case GetFails
    have "run net (xRead_fetch u off n buf i page pst chunk s) = Some (Inl FetchRejected, ?s4)"
      unfolding start using GetFails by simp
    then show ?thesis using GetFails ok4 p1 e2 js
      by (intro exI [of _ c2]) (auto simp add: fetch_result_def cache_ok_def)
  next
    case (GetResponse st b)
    show ?thesis
    proof (cases "b = []")
      case True
      have "run net (xRead_fetch u off n buf i page pst chunk s) = Some (Inl InvalidHTTPResponse, ?s4)"
        unfolding start using GetResponse True by simp
      then show ?thesis using GetResponse True ok4
        by (intro exI [of _ c2]) (simp add: fetch_result_def cache_ok_def)
    next
      case False
      let ?k5 = "\<lambda>s5. cache_set_all (map (Pair i) js) (Num page) s5
                             (\<lambda>s6. xRead_finish off n pst (U8 b) buf s6)"
      have nz: "U8 b \<noteq> U8 []" using False by simp
      from cache_set_step [OF ok4 nz, of "(i, page)" ?k5]
      obtain c5 where c5: "cache_set (i, page) (U8 b) ?s4 ?k5 = ?k5 (?s4\<lparr>cache := Some c5\<rparr>)"
        and ok5: "cache_ok cap (?s4\<lparr>cache := Some c5\<rparr>)"
        and p5: "int (length b) \<le> cap \<Longrightarrow> peek (i, page) c5 = Some (U8 b)"
        by (auto simp: sizeCalculation_page_def)
      from cache_set_all_step [OF ok5, of "Num page" "map (Pair i) js"
          "\<lambda>s6. xRead_finish off n pst (U8 b) buf s6"]
      obtain c6 where c6: "?k5 (?s4\<lparr>cache := Some c5\<rparr>) =
           xRead_finish off n pst (U8 b) buf (?s4\<lparr>cache := Some c5, cache := Some c6\<rparr>)"
        and ok6: "cache_ok cap (?s4\<lparr>cache := Some c5, cache := Some c6\<rparr>)"
        and e6: "js = [] \<Longrightarrow> c6 = c5"
        by auto
      have "run net (xRead_fetch u off n buf i page pst chunk s) =
          run net (cache_set (i, page) (U8 b) ?s4 ?k5)"
        unfolding start using GetResponse False by simp
      also have "\<dots> = Some (copy_out off n pst b buf, ?s4\<lparr>cache := Some c5, cache := Some c6\<rparr>)"
        unfolding c5 c6 by (rule run_xRead_finish)
      finally have "run net (xRead_fetch u off n buf i page pst chunk s) =
          Some (copy_out off n pst b buf, s\<lparr>loads := loads s @ [(?rq, ?st)], cache := Some c6\<rparr>)"
        by simp
      then show ?thesis using GetResponse False ok6 p5 e6 js
        by (intro exI [of _ c6]) (auto simp add: fetch_result_def cache_ok_def)
    qed
  qed
qed

lemma maxSize_moveToTail [simp]: "maxSize (moveToTail k c) = maxSize c"
  by (simp add: moveToTail_def split: option.splits prod.splits)

lemma cache_ok_touch:
  "cache_ok cap s \<Longrightarrow> cache s = Some c \<Longrightarrow> cache_ok cap (s\<lparr>cache := Some (moveToTail k c)\<rparr>)"
  by (auto simp: cache_ok_def lru_inv_moveToTail)

lemma xRead_prev_Num:
  "cache s = Some c \<Longrightarrow> no_promise (peek (i, r) c) \<Longrightarrow>
     xRead_prev u off n buf i page pst chunk (Some (Num r)) s =
       xRead_fetch u off n buf i page pst
         (case peek (i, r) c of Some (U8 b) \<Rightarrow> length b * 2 | _ \<Rightarrow> chunk)
         (s\<lparr>cache := Some (moveToTail (i, r) c)\<rparr>)"
  by (auto simp: xRead_prev_def cache_get_eq yield_if_promise_def no_promise_def
      split: option.splits cval.splits)

lemma xRead_miss_eq:
  assumes ok: "cache_ok cap s" and c: "cache s = Some c" and ps: "pageSize (objects s i) = Some p"
    and np: "no_promise (peek (i, page - 1) c)"
    and np2: "\<And>r. peek (i, page - 1) c = Some (Num r) \<Longrightarrow> no_promise (peek (i, r) c)"
  shows "\<exists>c1. xRead_miss u off n buf i page pst s =
                xRead_fetch u off n buf i page pst (chunk_size p i page c) (s\<lparr>cache := Some c1\<rparr>) \<and>
              cache_ok cap (s\<lparr>cache := Some c1\<rparr>) \<and> (\<forall>k. peek k c1 = peek k c)"
proof (cases "page = 0")
  case True
  have "s\<lparr>cache := Some c\<rparr> = s" using c by simp
  then show ?thesis using True ps ok
    by (intro exI [of _ c]) (simp add: xRead_miss_def truthy_def ToNumber_def chunk_size_def)
next
  case pos: False
  let ?c1 = "moveToTail (i, page - 1) c"
  let ?s1 = "s\<lparr>cache := Some ?c1\<rparr>"
  have ok1: "cache_ok cap ?s1" using ok c by (rule cache_ok_touch)
  have m: "xRead_miss u off n buf i page pst s =
      (if truthy (peek (i, page - 1) c)
       then yield_if_promise (peek (i, page - 1) c) ?s1 (xRead_prev u off n buf i page pst p)
       else xRead_fetch u off n buf i page pst p ?s1)"
    using pos ps by (simp add: xRead_miss_def cache_get_eq [OF c] ToNumber_def)
  show ?thesis
  proof (cases "peek (i, page - 1) c")
    case None
    then show ?thesis using m ok1 pos
      by (intro exI [of _ ?c1]) (simp add: truthy_def chunk_size_def)
  next
    case (Some v)
    show ?thesis
    proof (cases v)
      case (U8 b)
      then show ?thesis using m ok1 pos Some
        by (intro exI [of _ ?c1])
          (simp add: truthy_def chunk_size_def yield_if_promise_def xRead_prev_def)
    next
      case (Promise q)
      then show ?thesis using np Some by (simp add: no_promise_def)
    next
      case (Num r)
      show ?thesis
      proof (cases "r = 0")
        case True
        then show ?thesis using m ok1 pos Some Num
          by (intro exI [of _ ?c1]) (simp add: truthy_def chunk_size_def)
      next
        case False
        let ?c2 = "moveToTail (i, r) ?c1"
        let ?s2 = "s\<lparr>cache := Some ?c2\<rparr>"
        have c1: "cache ?s1 = Some ?c1" by simp
        have ok2: "cache_ok cap ?s2" using cache_ok_touch [OF ok1 c1, of "(i, r)"] by simp
        have root: "no_promise (peek (i, r) c)" using np2 Some Num by simp
        have root1: "no_promise (peek (i, r) ?c1)" using root by simp
        have "xRead_miss u off n buf i page pst s =
            xRead_prev u off n buf i page pst p (Some (Num r)) ?s1"
          using m Some Num False by (simp add: truthy_def yield_if_promise_def)
        also have "\<dots> = xRead_fetch u off n buf i page pst
             (case peek (i, r) ?c1 of Some (U8 b) \<Rightarrow> length b * 2 | _ \<Rightarrow> p)
             (?s1\<lparr>cache := Some ?c2\<rparr>)"
          using c1 root1 by (rule xRead_prev_Num)
        also have "(case peek (i, r) ?c1 of Some (U8 b) \<Rightarrow> length b * 2 | _ \<Rightarrow> p) =
             chunk_size p i page c"
          using pos Some Num False by (simp add: chunk_size_def)
        also have "?s1\<lparr>cache := Some ?c2\<rparr> = ?s2" by simp
        finally show ?thesis using ok2 by (intro exI [of _ ?c2]) simp
      qed
    qed
  qed
qed

lemma run_xRead_miss:
  assumes ok: "cache_ok cap s" and c: "cache s = Some c"
    and ps: "pageSize (objects s i) = Some p" "0 < p"
    and np: "no_promise (peek (i, page - 1) c)"
    and np2: "\<And>r. peek (i, page - 1) c = Some (Num r) \<Longrightarrow> no_promise (peek (i, r) c)"
  shows "\<exists>c'. run net (xRead_miss u off n buf i page pst s) =
            Some (fetch_result net (length (loads s))
                    (u, int pst, int pst + (int (chunk_size p i page c) - 1)) off n pst buf,
                  s\<lparr>loads := loads s @ [((u, int pst, int pst + (int (chunk_size p i page c) - 1)),
                       fetch_status net (length (loads s))
                         (u, int pst, int pst + (int (chunk_size p i page c) - 1)))],
                    cache := Some c'\<rparr>) \<and>
            maxSize c' = cap \<and> lru_inv sizeCalculation_page c' \<and>
            (chunk_size p i page c \<le> p \<longrightarrow>
               (case get_reply net (length (loads s))
                       (u, int pst, int pst + (int (chunk_size p i page c) - 1)) of
                  GetFails \<Rightarrow> 4 \<le> cap \<longrightarrow> peek (i, page) c' = Some (Promise (PFetch (length (loads s))))
                | GetResponse st b \<Rightarrow>
                    b \<noteq> [] \<and> int (length b) \<le> cap \<longrightarrow> peek (i, page) c' = Some (U8 b)))"
proof -
  from xRead_miss_eq [OF ok c ps(1) np np2, of u off n buf pst] obtain c1 where
    eq: "xRead_miss u off n buf i page pst s =
           xRead_fetch u off n buf i page pst (chunk_size p i page c) (s\<lparr>cache := Some c1\<rparr>)"
    and ok1: "cache_ok cap (s\<lparr>cache := Some c1\<rparr>)"
    by blast
  have ps1: "pageSize (objects (s\<lparr>cache := Some c1\<rparr>) i) = Some p" using ps by simp
  from run_xRead_fetch [OF ok1 ps1 ps(2), of net u off n buf page pst "chunk_size p i page c"]
  show ?thesis unfolding eq by (simp cong: get_outcome.case_cong)
qed

lemma xRead_cache_absent:
  assumes "cache s = Some c" "peek (i, page) c = None"
  shows "xRead_cache u off n buf i p page s = xRead_miss u off n buf i page (page * p) s"
proof -
  have "s\<lparr>cache := Some (moveToTail (i, page) c)\<rparr> = s"
    using assms by (simp add: moveToTail_absent)
  then show ?thesis
    using assms by (simp add: xRead_cache_def cache_get_eq [OF assms(1)] yield_if_promise_def)
qed

lemma xRead_cache_dangling:
  assumes c: "cache s = Some c" and r: "peek (i, page) c = Some (Num r)"
    and root: "peek (i, r) c = None \<or> (\<exists>r'. peek (i, r) c = Some (Num r'))"
  shows "xRead_cache u off n buf i p page s =
           xRead_miss u off n buf i page (page * p)
             (s\<lparr>cache := Some (moveToTail (i, r) (moveToTail (i, page) c))\<rparr>)"
proof -
  let ?s1 = "s\<lparr>cache := Some (moveToTail (i, page) c)\<rparr>"
  have c1: "cache ?s1 = Some (moveToTail (i, page) c)" by simp
  have "xRead_cache u off n buf i p page s =
      cache_get (i, r) ?s1
        (\<lambda>data2 s3. yield_if_promise data2 s3
           (\<lambda>data3 s4.
              case data3 of
                Some (U8 b) \<Rightarrow> xRead_finish off n (r * p) (U8 b) buf s4
              | _ \<Rightarrow> xRead_miss u off n buf i page (page * p) s4))"
    using r by (simp add: xRead_cache_def cache_get_eq [OF c] yield_if_promise_def)
  also have "\<dots> = xRead_miss u off n buf i page (page * p)
             (?s1\<lparr>cache := Some (moveToTail (i, r) (moveToTail (i, page) c))\<rparr>)"
    using root by (auto simp: cache_get_eq [OF c1] yield_if_promise_def)
  finally show ?thesis by simp
qed

lemma run_await_settled:
  assumes "promise_state s q = Some r"
  shows "run net (AwaitData q s k) = run net (k r s)"
proof -
  let ?f = "case q of PFetch f \<Rightarrow> f | PThen f _ \<Rightarrow> f"
  have "load_state s ?f \<noteq> Loading"
    using assms by (cases q) (auto split: load_status.splits)
  then have "deliver_get ?f out s = s" for out by (rule deliver_get_settled)
  then show ?thesis using assms by (simp add: Let_def)
qed

lemma run_xRead_cache_rejected:
  assumes c: "cache s = Some c" and q: "peek (i, page) c = Some (Promise q)"
    and e: "promise_state s q = Some (Inl e)"
  shows "run net (xRead_cache u off n buf i p page s) =
           Some (Inl e, s\<lparr>cache := Some (moveToTail (i, page) c)\<rparr>)"
proof -
  let ?s1 = "s\<lparr>cache := Some (moveToTail (i, page) c)\<rparr>"
  have e1: "promise_state ?s1 q = Some (Inl e)" using e by simp
  obtain k where k: "xRead_cache u off n buf i p page s =
      AwaitData q ?s1 (\<lambda>r s'. case r of Inl e \<Rightarrow> Throw e s' | Inr v \<Rightarrow> k v s')"
    using q by (simp add: xRead_cache_def cache_get_eq [OF c] yield_if_promise_def)
  show ?thesis unfolding k run_await_settled [OF e1] by simp
qed

lemma peek_files_touch [simp]: "peek u (moveToTail u' fs) = peek u fs"
  by simp

lemma xRead_open:
  assumes "peek u (files s) = Some (FileEntry i)"
    and "pageSize (objects s i) = Some p" "0 < p" "\<not> (off div p) * p + p < off + n"
  shows "xRead (Suc d) u (Some off) (Some n) buf s =
           xRead_cache u off n buf i p (off div p) (s\<lparr>files := moveToTail u (files s)\<rparr>)"
proof -
  from assms(1) obtain sz where f: "map_of (chain (files s)) u = Some (FileEntry i, sz)"
    by (auto simp: peek_def)
  have "xRead (Suc d) u (Some off) (Some n) buf s =
      xRead_body u off n buf i (s\<lparr>files := moveToTail u (files s)\<rparr>)"
    using f assms(2,3) by (rule xRead_known)
  also have "\<dots> = xRead_cache u off n buf i p (off div p) (s\<lparr>files := moveToTail u (files s)\<rparr>)"
    using assms(2-4) by (intro xRead_body_in_page) simp_all
  finally show ?thesis .
qed

lemma run_xRead_absent:
  assumes f: "peek u (files s) = Some (FileEntry i)"
    and ps: "pageSize (objects s i) = Some p" "0 < p" "\<not> (off div p) * p + p < off + n"
    and ok: "cache_ok cap s" and c: "cache s = Some c"
    and ab: "peek (i, off div p) c = None"
    and np: "no_promise (peek (i, off div p - 1) c)"
    and np2: "\<And>r. peek (i, off div p - 1) c = Some (Num r) \<Longrightarrow> no_promise (peek (i, r) c)"
  shows "\<exists>c'. run net (xRead (Suc d) u (Some off) (Some n) buf s) =
            Some (fetch_result net (length (loads s))
                    (u, int (off div p * p),
                     int (off div p * p) + (int (chunk_size p i (off div p) c) - 1))
                    off n (off div p * p) buf,
                  s\<lparr>files := moveToTail u (files s),
                    loads := loads s @
                      [((u, int (off div p * p),
                         int (off div p * p) + (int (chunk_size p i (off div p) c) - 1)),
                        fetch_status net (length (loads s))
                          (u, int (off div p * p),
                           int (off div p * p) + (int (chunk_size p i (off div p) c) - 1)))],
                    cache := Some c'\<rparr>) \<and>
            maxSize c' = cap \<and> lru_inv sizeCalculation_page c' \<and>
            (chunk_size p i (off div p) c \<le> p \<longrightarrow>
               (case get_reply net (length (loads s))
                       (u, int (off div p * p),
                        int (off div p * p) + (int (chunk_size p i (off div p) c) - 1)) of
                  GetFails \<Rightarrow> 4 \<le> cap \<longrightarrow>
                    peek (i, off div p) c' = Some (Promise (PFetch (length (loads s))))
                | GetResponse st b \<Rightarrow>
                    b \<noteq> [] \<and> int (length b) \<le> cap \<longrightarrow> peek (i, off div p) c' = Some (U8 b)))"
proof -
  let ?s1 = "s\<lparr>files := moveToTail u (files s)\<rparr>"
  have ok1: "cache_ok cap ?s1" using ok by simp
  have c1: "cache ?s1 = Some c" using c by simp
  have ps1: "pageSize (objects ?s1 i) = Some p" using ps by simp
  have "xRead (Suc d) u (Some off) (Some n) buf s =
      xRead_cache u off n buf i p (off div p) ?s1"
    using f ps by (rule xRead_open)
  also have "\<dots> = xRead_miss u off n buf i (off div p) (off div p * p) ?s1"
    using c1 ab by (rule xRead_cache_absent)
  finally have eq: "xRead (Suc d) u (Some off) (Some n) buf s =
      xRead_miss u off n buf i (off div p) (off div p * p) ?s1" .
  from run_xRead_miss [OF ok1 c1 ps1 ps(2) np np2, of net u off n buf "off div p * p"]
  show ?thesis unfolding eq by (simp cong: get_outcome.case_cong)
qed

lemma cached_cache: "cache s = Some c \<Longrightarrow> cached key s = peek key c"
  by (simp add: cached_def)

lemma db_read0_ok: "cache_ok 1048576 db_read0"
  by (simp add: cache_ok_def lru_inv_def db_read0_def db_page0_def sizeCalculation_page_def)

lemma evict_to_suffix:
  "recorded B \<le> limit \<Longrightarrow> \<exists>A'. evict_to limit (A @ B) = A' @ B"
proof (induction A)
  case Nil
  then show ?case by (cases B) auto
next
  case (Cons a A)
  then show ?case by (cases "recorded (a # A @ B) > limit") (auto intro: exI [of _ "a # A"])
qed

lemma unlink_suffix: "k \<notin> fst ` set B \<Longrightarrow> unlink k (A @ B) = unlink k A @ B"
  by (auto simp: unlink_def filter_id_conv)

lemma recorded_append [simp]: "recorded (A @ B) = recorded A + recorded B"
  by (simp add: recorded_def)

lemma recorded_Cons [simp]: "recorded (e # B) = snd (snd e) + recorded B"
  by (simp add: recorded_def)

lemma recorded_Nil [simp]: "recorded [] = 0"
  by (simp add: recorded_def)

text \<open>A \<^verbatim>\<open>set\<close> keeps the most recently used entries \<open>B\<close> when they and the new entry fit.\<close>

lemma lru_set_keeps:
  assumes a: "lru_inv sizeCalculation_page c" and m: "max_opt c = 0"
    and v: "v \<noteq> U8 []"
    and ch: "chain c = A @ B" and k: "k \<notin> fst ` set B"
    and fit: "recorded B + sizeCalculation_page v \<le> maxSize c"
  shows "\<exists>c' A'. lru_set identical k v c = Some (Inr c') \<and> lru_inv sizeCalculation_page c' \<and>
              maxSize c' = maxSize c \<and> max_opt c' = 0 \<and>
              chain c' = A' @ B @ [(k, v, sizeCalculation_page v)]"
proof -
  let ?sz = "sizeCalculation_page v"
  have pos: "0 < ?sz" using v by (simp add: sizeCalculation_page_pos)
  have "0 < snd (snd e)" if "e \<in> set B" for e
  proof -
    have "e \<in> set (chain c)" using that ch by simp
    then show ?thesis using a unfolding lru_inv_def by blast
  qed
  then have "\<forall>e \<in> set B. 0 < snd (snd e)" by blast
  then have nn: "0 \<le> recorded B"
    by (induction B) (auto simp: less_imp_le add_nonneg_nonneg)
  have fv: "?sz \<le> maxSize c" using fit nn by simp
  from lru_set_inv [OF a, of v identical k] pos obtain c' where
    c': "lru_set identical k v c = Some (Inr c')" "lru_inv sizeCalculation_page c'"
        "maxSize c' = maxSize c" "max_opt c' = max_opt c"
    by auto
  have lim: "recorded B \<le> maxSize c - ?sz" using fit by simp
  have "\<exists>A'. chain c' = A' @ B @ [(k, v, ?sz)]"
  proof (cases "map_of (chain c) k")
    case None
    have ni: "newIndex c = c" using m by (simp add: newIndex_def)
    from evict_to_suffix [OF lim, of A] obtain A' where
      "evict_to (maxSize c - ?sz) (A @ B) = A' @ B" by blast
    then show ?thesis
      using c'(1) lru_set_add [OF a pos fv None, of identical] ni ch by auto
  next
    case (Some e)
    obtain old osz where e: "e = (old, osz)" by (cases e) auto
    have km: "map_of (chain c) k = Some (old, osz)" using Some e by simp
    have un: "unlink k (chain c) = unlink k A @ B" using ch k by (simp add: unlink_suffix)
    show ?thesis
    proof (cases "identical v old")
      case True
      then have vo: "v = old" by (rule identical_eq)
      have "(k, old, osz) \<in> set (chain c)" using km by (rule map_of_SomeD)
      then have "osz = ?sz" using a vo by (auto simp: lru_inv_def)
      moreover have "lru_set identical k v c =
          Some (Inr (c\<lparr>chain := unlink k (chain c) @ [(k, old, osz)]\<rparr>))"
        using a pos fv km True by (rule lru_set_same)
      ultimately show ?thesis using c'(1) un vo by auto
    next
      case False
      from evict_to_suffix [OF lim, of "unlink k A"] obtain A' where
        "evict_to (maxSize c - ?sz) (unlink k A @ B) = A' @ B" by blast
      then show ?thesis
        using c'(1) lru_set_update [of sizeCalculation_page c v k old osz identical] a pos fv km
          False un
        by auto
    qed
  qed
  then show ?thesis using c' m by auto
qed

lemma cache_set_keeps:
  assumes ok: "cache_ok cap s" and c: "cache s = Some c" and v: "v \<noteq> U8 []"
    and ch: "chain c = A @ B" and k: "k \<notin> fst ` set B"
    and fit: "recorded B + sizeCalculation_page v \<le> cap"
  shows "\<exists>c' A'. cache_set k v s K = K (s\<lparr>cache := Some c'\<rparr>) \<and>
              cache_ok cap (s\<lparr>cache := Some c'\<rparr>) \<and>
              chain c' = A' @ B @ [(k, v, sizeCalculation_page v)]"
proof -
  from ok c have i: "lru_inv sizeCalculation_page c" and m: "max_opt c = 0" and cp: "maxSize c = cap"
    by (auto simp: cache_ok_def)
  from lru_set_keeps [OF i m v ch k] fit cp obtain c' A' where
    "lru_set identical k v c = Some (Inr c')" "lru_inv sizeCalculation_page c'"
    "maxSize c' = maxSize c" "max_opt c' = 0" "chain c' = A' @ B @ [(k, v, sizeCalculation_page v)]"
    by auto
  then show ?thesis using c cp
    by (intro exI [of _ c'] exI [of _ A']) (simp add: cache_set_def cache_ok_def)
qed

lemma cache_set_all_keeps:
  assumes v: "v \<noteq> U8 []"
  shows "cache_ok cap s \<Longrightarrow> cache s = Some c \<Longrightarrow> chain c = A @ B \<Longrightarrow> distinct ks \<Longrightarrow>
         set ks \<inter> fst ` set B = {} \<Longrightarrow>
         recorded B + sizeCalculation_page v * int (length ks) \<le> cap \<Longrightarrow>
         \<exists>c' A'. cache_set_all ks v s K = K (s\<lparr>cache := Some c'\<rparr>) \<and>
              cache_ok cap (s\<lparr>cache := Some c'\<rparr>) \<and>
              chain c' = A' @ B @ map (\<lambda>k. (k, v, sizeCalculation_page v)) ks"
proof (induction ks arbitrary: s c A B)
  case Nil
  have eq: "s\<lparr>cache := Some c\<rparr> = s" using Nil.prems(2) by simp
  show ?case
  proof (intro exI [of _ c] exI [of _ A] conjI)
    show "cache_set_all [] v s K = K (s\<lparr>cache := Some c\<rparr>)" unfolding eq by simp
    show "cache_ok cap (s\<lparr>cache := Some c\<rparr>)" unfolding eq by (rule Nil.prems(1))
    show "chain c = A @ B @ map (\<lambda>k. (k, v, sizeCalculation_page v)) []"
      using Nil.prems(3) by simp
  qed
next
  case (Cons k ks)
  let ?sz = "sizeCalculation_page v"
  let ?K1 = "\<lambda>s'. cache_set_all ks v s' K"
  have pos: "0 < ?sz" using v by (simp add: sizeCalculation_page_pos)
  have "0 \<le> ?sz * int (length ks)" using pos by simp
  then have fit1: "recorded B + ?sz \<le> cap" using Cons.prems(6) by (simp add: algebra_simps)
  have kB: "k \<notin> fst ` set B" using Cons.prems(5) by auto
  from cache_set_keeps [OF Cons.prems(1,2) v Cons.prems(3) kB fit1, of ?K1] obtain c1 A1 where
    s1: "cache_set k v s ?K1 = ?K1 (s\<lparr>cache := Some c1\<rparr>)"
    and ok1: "cache_ok cap (s\<lparr>cache := Some c1\<rparr>)"
    and ch1: "chain c1 = A1 @ (B @ [(k, v, ?sz)])"
    by auto
  have c1: "cache (s\<lparr>cache := Some c1\<rparr>) = Some c1" by simp
  have d: "distinct ks" "k \<notin> set ks" using Cons.prems(4) by simp_all
  have dis: "set ks \<inter> fst ` set (B @ [(k, v, ?sz)]) = {}" using Cons.prems(5) d(2) by auto
  have fit2: "recorded (B @ [(k, v, ?sz)]) + ?sz * int (length ks) \<le> cap"
    using Cons.prems(6) by (simp add: algebra_simps)
  from Cons.IH [OF ok1 c1 ch1 d(1) dis fit2] obtain c' A' where
    s2: "cache_set_all ks v (s\<lparr>cache := Some c1\<rparr>) K = K (s\<lparr>cache := Some c1, cache := Some c'\<rparr>)"
    and ok2: "cache_ok cap (s\<lparr>cache := Some c1, cache := Some c'\<rparr>)"
    and ch2: "chain c' = A' @ (B @ [(k, v, ?sz)]) @ map (\<lambda>k. (k, v, ?sz)) ks"
    by blast
  have eq: "s\<lparr>cache := Some c1, cache := Some c'\<rparr> = s\<lparr>cache := Some c'\<rparr>" by simp
  show ?case
  proof (intro exI [of _ c'] exI [of _ A'] conjI)
    show "cache_set_all (k # ks) v s K = K (s\<lparr>cache := Some c'\<rparr>)"
      using s1 s2 unfolding eq by (simp only: cache_set_all.simps)
    show "cache_ok cap (s\<lparr>cache := Some c'\<rparr>)" using ok2 unfolding eq .
    show "chain c' = A' @ B @ map (\<lambda>k. (k, v, ?sz)) (k # ks)" using ch2 by simp
  qed
qed

lemma peek_in_chain:
  assumes "distinct (map fst (chain c))" "(k, v, sz) \<in> set (chain c)"
  shows "peek k c = Some v"
  using assms by (simp add: peek_def)

lemma run_xRead_fetch_fails:
  assumes ok: "cache_ok cap s" and ps: "pageSize (objects s i) = Some p" "0 < p"
    and fails: "get_reply net (length (loads s)) (u, int pst, int pst + (int chunk - 1)) = GetFails"
    and cap: "4 \<le> cap" "4 * int ((chunk + p - 1) div p) \<le> cap"
  shows "\<exists>c'. run net (xRead_fetch u off n buf i page pst chunk s) =
            Some (Inl FetchRejected,
                  s\<lparr>loads := loads s @ [((u, int pst, int pst + (int chunk - 1)), LoadFailed)],
                    cache := Some c'\<rparr>) \<and>
            cache_ok cap (s\<lparr>loads := loads s @ [((u, int pst, int pst + (int chunk - 1)), LoadFailed)],
                    cache := Some c'\<rparr>) \<and>
            peek (i, page) c' = Some (Promise (PFetch (length (loads s)))) \<and>
            (\<forall>j. page < j \<and> j < page + (chunk + p - 1) div p \<longrightarrow>
                 peek (i, j) c' = Some (Promise (PThen (length (loads s)) page)))"
proof -
  let ?rq = "(u, int pst, int pst + (int chunk - 1))"
  let ?f = "length (loads s)"
  define js where "js = [page + 1 ..< page + (chunk + p - 1) div p]"
  have fp: "following_pages page chunk (ToNumber (pageSize (objects s i))) = Some js"
    using ps by (simp add: following_pages_def ToNumber_def js_def)
  let ?s1 = "s\<lparr>loads := loads s @ [(?rq, Loading)]\<rparr>"
  let ?k3 = "\<lambda>r s4. case r of
                 Inl e \<Rightarrow> Throw e s4
               | Inr (U8 b) \<Rightarrow>
                   if length b = 0 then Throw InvalidHTTPResponse s4
                   else cache_set (i, page) (U8 b) s4
                          (\<lambda>s5. cache_set_all (map (Pair i) js) (Num page) s5
                             (\<lambda>s6. xRead_finish off n pst (U8 b) buf s6))
               | Inr _ \<Rightarrow> Throw InvalidHTTPResponse s4"
  let ?k2 = "\<lambda>s3. AwaitData (PFetch ?f) s3 ?k3"
  let ?k1 = "\<lambda>s2. cache_set_all (map (Pair i) js) (Promise (PThen ?f page)) s2 ?k2"
  have unf: "xRead_fetch u off n buf i page pst chunk s =
      cache_set (i, page) (Promise (PFetch ?f)) ?s1 ?k1"
    by (simp add: xRead_fetch_def fp fetch_get_def)
  from ok obtain c where c: "cache ?s1 = Some c" by (auto simp: cache_ok_def)
  have ok1: "cache_ok cap ?s1" using ok by simp
  let ?e0 = "((i, page), Promise (PFetch ?f), 4 :: int)"
  have "chain c = chain c @ []" by simp
  from cache_set_keeps [OF ok1 c _ this, of "Promise (PFetch ?f)" "(i, page)" ?k1] cap(1)
  obtain c1 A1 where
    s1: "cache_set (i, page) (Promise (PFetch ?f)) ?s1 ?k1 = ?k1 (?s1\<lparr>cache := Some c1\<rparr>)"
    and ok2: "cache_ok cap (?s1\<lparr>cache := Some c1\<rparr>)"
    and ch1: "chain c1 = A1 @ [?e0]"
    by (auto simp: sizeCalculation_page_def)
  have c1: "cache (?s1\<lparr>cache := Some c1\<rparr>) = Some c1" by simp
  have d: "distinct (map (Pair i) js)" by (simp add: js_def distinct_map inj_on_def)
  have dis: "set (map (Pair i) js) \<inter> fst ` set [?e0] = {}" by (auto simp: js_def)
  have len: "int (length js) = int ((chunk + p - 1) div p) - 1 \<or> length js = 0"
    by (auto simp: js_def)
  have fit: "recorded [?e0] + sizeCalculation_page (Promise (PThen ?f page)) *
               int (length (map (Pair i) js)) \<le> cap"
    using len cap by (auto simp: sizeCalculation_page_def)
  from cache_set_all_keeps [OF _ ok2 c1 ch1 d dis fit, of ?k2]
  obtain c2 A2 where
    s2: "?k1 (?s1\<lparr>cache := Some c1\<rparr>) = ?k2 (?s1\<lparr>cache := Some c1, cache := Some c2\<rparr>)"
    and ok3: "cache_ok cap (?s1\<lparr>cache := Some c1, cache := Some c2\<rparr>)"
    and ch2: "chain c2 = A2 @ [?e0] @
        map (\<lambda>k. (k, Promise (PThen ?f page), sizeCalculation_page (Promise (PThen ?f page))))
          (map (Pair i) js)"
    by auto
  let ?s3 = "s\<lparr>loads := loads s @ [(?rq, Loading)], cache := Some c2\<rparr>"
  have s3: "?s1\<lparr>cache := Some c1, cache := Some c2\<rparr> = ?s3" by simp
  let ?s4 = "s\<lparr>loads := loads s @ [(?rq, LoadFailed)], cache := Some c2\<rparr>"
  have "run net (AwaitData (PFetch ?f) ?s3 ?k3) =
        run net (?k3 (case get_reply net ?f ?rq of
                         GetFails \<Rightarrow> Inl FetchRejected
                       | GetResponse st b \<Rightarrow> Inr (U8 b))
                   (?s3\<lparr>loads := loads s @ [(?rq, fetch_status net ?f ?rq)]\<rparr>))"
    by (rule run_await_fetch) simp_all
  also have "\<dots> = Some (Inl FetchRejected, ?s4)"
    using fails by (simp add: fetch_status_def)
  finally have r: "run net (xRead_fetch u off n buf i page pst chunk s) = Some (Inl FetchRejected, ?s4)"
    unfolding unf s1 s2 s3 .
  have ok4: "cache_ok cap ?s4" using ok3 unfolding s3 by (simp add: cache_ok_def)
  then have dk: "distinct (map fst (chain c2))" by (simp add: cache_ok_def lru_inv_def)
  have "?e0 \<in> set (chain c2)" unfolding ch2 by simp
  with dk have p0: "peek (i, page) c2 = Some (Promise (PFetch ?f))"
    by (rule peek_in_chain)
  have pj: "peek (i, j) c2 = Some (Promise (PThen ?f page))"
    if "page < j \<and> j < page + (chunk + p - 1) div p" for j
  proof -
    have "j \<in> set js" using that by (simp add: js_def)
    then have "((i, j), Promise (PThen ?f page), sizeCalculation_page (Promise (PThen ?f page)))
        \<in> set (chain c2)"
      unfolding ch2 by (simp add: image_iff)
    with dk show ?thesis by (rule peek_in_chain)
  qed
  show ?thesis using r ok4 p0 pj by (intro exI [of _ c2]) simp
qed

lemma xRead_cache_misses:
  assumes ok: "cache_ok cap s" and c: "cache s = Some c" and m: "misses i k c"
  shows "\<exists>c1. xRead_cache u off n buf i p k s =
                xRead_miss u off n buf i k (k * p) (s\<lparr>cache := Some c1\<rparr>) \<and>
              cache_ok cap (s\<lparr>cache := Some c1\<rparr>) \<and> (\<forall>key. peek key c1 = peek key c)"
proof (cases "peek (i, k) c")
  case None
  have "s\<lparr>cache := Some c\<rparr> = s" using c by simp
  then show ?thesis
    using xRead_cache_absent [OF c None, of u off n buf p] ok by (intro exI [of _ c]) simp
next
  case (Some v)
  then obtain r where r: "peek (i, k) c = Some (Num r)"
    using m by (cases v) (simp_all add: misses_def)
  have root: "peek (i, r) c = None \<or> (\<exists>r'. peek (i, r) c = Some (Num r'))"
    using m r by (auto simp: misses_def split: option.splits cval.splits)
  let ?c1 = "moveToTail (i, k) c"
  have ok1: "cache_ok cap (s\<lparr>cache := Some ?c1\<rparr>)" using ok c by (rule cache_ok_touch)
  have "cache_ok cap (s\<lparr>cache := Some ?c1\<rparr>\<lparr>cache := Some (moveToTail (i, r) ?c1)\<rparr>)"
    by (rule cache_ok_touch [OF ok1]) simp
  then have ok2: "cache_ok cap (s\<lparr>cache := Some (moveToTail (i, r) ?c1)\<rparr>)" by simp
  show ?thesis
    using xRead_cache_dangling [OF c r root, of u off n buf p] ok2
    by (intro exI [of _ "moveToTail (i, r) ?c1"]) simp
qed

lemma run_workMessage_xRead_throws:
  "run net (xRead d u off n (buffer con) s) = Some (Inl e, s') \<Longrightarrow>
     run net (workMessage d (XRead u off n) con s) =
       Some (Inr (con\<lparr>lock := lock con @ [Store 1, Notify]\<rparr>), s')"
  by (simp add: run_workMessage handler_def run_bind)

lemma cached_frame [simp]:
  "cached key (s\<lparr>files := fs\<rparr>) = cached key s"
  "cached key (s\<lparr>loads := ls\<rparr>) = cached key s"
  "cached key (s\<lparr>cache := Some c\<rparr>) = peek key c"
  by (simp_all add: cached_def)

lemma run_xRead_misses_fails:
  assumes f: "peek u (files s) = Some (FileEntry i)"
    and ps: "pageSize (objects s i) = Some p" "0 < p" "\<not> (off div p) * p + p < off + n"
    and ok: "cache_ok cap s" and c: "cache s = Some c"
    and m: "misses i (off div p) c" and q: "quiet_prev i (off div p) c"
    and cap: "4 \<le> cap" "4 * int ((chunk_size p i (off div p) c + p - 1) div p) \<le> cap"
    and fails: "get_reply net (length (loads s))
       (u, int (off div p * p), int (off div p * p) + (int (chunk_size p i (off div p) c) - 1)) = GetFails"
  shows "\<exists>s'. run net (xRead (Suc d) u (Some off) (Some n) buf s) = Some (Inl FetchRejected, s') \<and>
           loads s' = loads s @
             [((u, int (off div p * p), int (off div p * p) + (int (chunk_size p i (off div p) c) - 1)),
               LoadFailed)] \<and>
           cache_ok cap s' \<and>
           rejected (i, off div p) (PFetch (length (loads s))) s' \<and>
           (\<forall>j. off div p < j \<and> j < off div p + (chunk_size p i (off div p) c + p - 1) div p \<longrightarrow>
                rejected (i, j) (PThen (length (loads s)) (off div p)) s') \<and>
           peek u (files s') = Some (FileEntry i) \<and> objects s' = objects s"
proof -
  let ?k = "off div p"
  let ?chunk = "chunk_size p i ?k c"
  let ?rq = "(u, int (?k * p), int (?k * p) + (int ?chunk - 1))"
  let ?s0 = "s\<lparr>files := moveToTail u (files s)\<rparr>"
  have ok0: "cache_ok cap ?s0" using ok by simp
  have c0: "cache ?s0 = Some c" using c by simp
  from xRead_cache_misses [OF ok0 c0 m, of u off n buf p] obtain c1 where
    e1: "xRead_cache u off n buf i p ?k ?s0 =
           xRead_miss u off n buf i ?k (?k * p) (?s0\<lparr>cache := Some c1\<rparr>)"
    and ok1: "cache_ok cap (?s0\<lparr>cache := Some c1\<rparr>)"
    and pk1: "\<forall>key. peek key c1 = peek key c"
    by blast
  let ?s1 = "?s0\<lparr>cache := Some c1\<rparr>"
  have cc1: "cache ?s1 = Some c1" by simp
  have ps1: "pageSize (objects ?s1 i) = Some p" using ps by simp
  have m0: "no_promise (peek (i, 0) c) \<and>
            (\<forall>r. peek (i, 0) c = Some (Num r) \<longrightarrow> no_promise (peek (i, r) c))" if "?k = 0"
    using m that by (auto simp: misses_def no_promise_def split: option.splits cval.splits)
  have np: "no_promise (peek (i, ?k - 1) c1)"
    using q m0 pk1 by (cases "?k = 0") (auto simp: quiet_prev_def)
  have np2: "no_promise (peek (i, r) c1)" if "peek (i, ?k - 1) c1 = Some (Num r)" for r
    using q m0 pk1 that by (cases "?k = 0") (auto simp: quiet_prev_def)
  from xRead_miss_eq [OF ok1 cc1 ps1 np np2, of u off n buf "?k * p"] obtain c2 where
    e2: "xRead_miss u off n buf i ?k (?k * p) ?s1 =
           xRead_fetch u off n buf i ?k (?k * p) (chunk_size p i ?k c1) (?s1\<lparr>cache := Some c2\<rparr>)"
    and ok2: "cache_ok cap (?s1\<lparr>cache := Some c2\<rparr>)"
    by blast
  have ch: "chunk_size p i ?k c1 = ?chunk"
    using pk1 by (simp add: chunk_size_def cong: option.case_cong cval.case_cong if_cong)
  let ?s2 = "?s1\<lparr>cache := Some c2\<rparr>"
  have ps2: "pageSize (objects ?s2 i) = Some p" using ps by simp
  have fails2: "get_reply net (length (loads ?s2)) ?rq = GetFails" using fails by simp
  from run_xRead_fetch_fails [OF ok2 ps2 ps(2) fails2 cap, of off n buf ?k] obtain c' where
    r: "run net (xRead_fetch u off n buf i ?k (?k * p) ?chunk ?s2) =
          Some (Inl FetchRejected, ?s2\<lparr>loads := loads ?s2 @ [(?rq, LoadFailed)], cache := Some c'\<rparr>)"
    and ok': "cache_ok cap (?s2\<lparr>loads := loads ?s2 @ [(?rq, LoadFailed)], cache := Some c'\<rparr>)"
    and p0: "peek (i, ?k) c' = Some (Promise (PFetch (length (loads ?s2))))"
    and pj: "\<forall>j. ?k < j \<and> j < ?k + (?chunk + p - 1) div p \<longrightarrow>
                 peek (i, j) c' = Some (Promise (PThen (length (loads ?s2)) ?k))"
    by blast
  let ?s' = "?s2\<lparr>loads := loads ?s2 @ [(?rq, LoadFailed)], cache := Some c'\<rparr>"
  have "xRead (Suc d) u (Some off) (Some n) buf s = xRead_cache u off n buf i p ?k ?s0"
    using f ps by (rule xRead_open)
  then have run: "run net (xRead (Suc d) u (Some off) (Some n) buf s) = Some (Inl FetchRejected, ?s')"
    using r unfolding e1 e2 ch by simp
  have ls: "load_state ?s' (length (loads s)) = LoadFailed" by (simp add: load_state_def)
  have r0: "rejected (i, ?k) (PFetch (length (loads s))) ?s'"
    using p0 ls by (simp add: rejected_def)
  have rj: "rejected (i, j) (PThen (length (loads s)) ?k) ?s'"
    if "?k < j \<and> j < ?k + (?chunk + p - 1) div p" for j
    using pj that ls by (simp add: rejected_def)
  have fl: "peek u (files ?s') = Some (FileEntry i)" using f by simp
  show ?thesis
    using run ok' r0 rj fl by (intro exI [of _ ?s']) simp
qed

lemma run_xRead_rejected:
  assumes f: "peek u (files s) = Some (FileEntry i)"
    and ps: "pageSize (objects s i) = Some p" "0 < p" "\<not> (off div p) * p + p < off + n"
    and r: "rejected (i, off div p) q s"
  shows "\<exists>s'. run net (xRead (Suc d) u (Some off) (Some n) buf s) = Some (Inl FetchRejected, s') \<and>
           loads s' = loads s \<and> rejected (i, off div p) q s' \<and>
           peek u (files s') = Some (FileEntry i) \<and> objects s' = objects s \<and>
           (\<forall>cap. cache_ok cap s \<longrightarrow> cache_ok cap s')"
proof -
  let ?page = "off div p"
  from r obtain c where c: "cache s = Some c" and pk: "peek (i, ?page) c = Some (Promise q)"
    and lf: "promise_state s q = Some (Inl FetchRejected)"
    by (auto simp: rejected_def cached_def split: option.splits)
  let ?s1 = "s\<lparr>files := moveToTail u (files s)\<rparr>"
  let ?s' = "?s1\<lparr>cache := Some (moveToTail (i, ?page) c)\<rparr>"
  have c1: "cache ?s1 = Some c" using c by simp
  have e1: "promise_state ?s1 q = Some (Inl FetchRejected)" using lf by simp
  have "run net (xRead (Suc d) u (Some off) (Some n) buf s) =
      run net (xRead_cache u off n buf i p ?page ?s1)"
    using xRead_open [OF f ps, of d buf] by simp
  also have "\<dots> = Some (Inl FetchRejected, ?s')"
    using c1 pk e1 by (rule run_xRead_cache_rejected)
  finally have run: "run net (xRead (Suc d) u (Some off) (Some n) buf s) =
      Some (Inl FetchRejected, ?s')" .
  have rj: "rejected (i, ?page) q ?s'" using pk lf by (simp add: rejected_def)
  have fl: "peek u (files ?s') = Some (FileEntry i)" using f by simp
  have ok: "cache_ok cap ?s'" if "cache_ok cap s" for cap
  proof -
    have "cache_ok cap ?s1" using that by simp
    then show ?thesis using c1 by (rule cache_ok_touch)
  qed
  show ?thesis using run rj fl ok by (intro exI [of _ ?s']) simp
qed

section \<open>Every request comes to an end\<close>








lemma finishes_Done [simp]: "finishes W net (Done x s) = W s"
  by (simp add: finishes_def)

lemma finishes_Throw [simp]: "finishes W net (Throw e s) = W s"
  by (simp add: finishes_def)

lemma finishes_Pause [simp]: "finishes W net (Pause s k) = finishes W net (k s)"
  by (simp add: finishes_def)










lemma sound_objects [simp]: "sound cap (s\<lparr>objects := ob\<rparr>) = sound cap s"
  by (simp add: sound_def)

lemma sound_set_pageSize [simp]: "sound cap (set_pageSize i v s) = sound cap s"
  by (simp add: set_pageSize_def)

lemma files_deliver_head [simp]: "files (deliver_head f out s) = files s"
  by (auto simp: deliver_head_def head_then_def Let_def split: head_outcome.splits header.splits)

lemma loads_deliver_head [simp]: "loads (deliver_head f out s) = loads s"
  by (auto simp: deliver_head_def head_then_def Let_def split: head_outcome.splits header.splits)

lemma length_probes_deliver_head [simp]:
  "length (probes (deliver_head f out s)) = length (probes s)"
  by (auto simp: deliver_head_def head_then_def Let_def split: head_outcome.splits header.splits)

lemma files_deliver_get [simp]: "files (deliver_get f out s) = files s"
  by (auto simp: deliver_get_def Let_def split: get_outcome.splits)

lemma probes_deliver_get [simp]: "probes (deliver_get f out s) = probes s"
  by (auto simp: deliver_get_def Let_def split: get_outcome.splits)

lemma objects_deliver_get [simp]: "objects (deliver_get f out s) = objects s"
  by (auto simp: deliver_get_def Let_def split: get_outcome.splits)

lemma length_loads_deliver_get [simp]:
  "length (loads (deliver_get f out s)) = length (loads s)"
  by (auto simp: deliver_get_def Let_def split: get_outcome.splits)




















lemma sound_obj_True [simp]: "sound_obj cap (\<lambda>_. True) = sound cap"
  by (simp add: sound_obj_def fun_eq_iff)










lemma resolved_frame [simp]:
  "resolved e i (s\<lparr>files := fs\<rparr>) = resolved e i s"
  "resolved e i (s\<lparr>objects := ob\<rparr>) = resolved e i s"
  "resolved e i (set_pageSize j v s) = resolved e i s"
  by (simp_all add: resolved_def set_pageSize_def split: fval.splits)

lemma files_set_pageSize [simp]: "files (set_pageSize i v s) = files s"
  by (simp add: set_pageSize_def)

lemma pageSize_set_pageSize [simp]: "pageSize (objects (set_pageSize i v s) i) = Some v"
  by (simp add: set_pageSize_def)







section \<open>The capacity of the page cache\<close>

text \<open>
  C2 (cache boundedness). Once \<^verbatim>\<open>init\<close> has created the page cache with capacity
  \<open>cacheSize * 1024\<close>: (1) after any sequence of events of the dispatcher (data messages,
  among them any \<^verbatim>\<open>xRead\<close>, network answers and resumptions, in any interleaving) the
  resident bytes of the page cache, the sum of the \<^verbatim>\<open>sizeCalculation\<close> values of its
  entries, equal \<^verbatim>\<open>calculatedSize\<close> and do not exceed the capacity; (2) the same holds after
  any sequence of \<^verbatim>\<open>set\<close>, \<^verbatim>\<open>get\<close> and \<^verbatim>\<open>delete\<close> calls, each of which returns; and in the cache
  reached, whose list runs from the least to the most recently used entry: (3) a \<^verbatim>\<open>get\<close> of
  a stored key moves its entry to the most recently used end; (4) so does a \<^verbatim>\<open>set\<close> of the
  value that is stored already; (5) any other \<^verbatim>\<open>set\<close> of a value that fits, under a new key
  or under a key whose value it replaces, takes the key's old entry out, drops the \<open>j\<close>
  least recently used of the other entries and puts the new entry at the most recently
  used end, where \<open>j\<close> is the least number for which the remaining entries and the new
  one are within the capacity.
\<close>

theorem page_cache_bounded:
  assumes "init opts s = (None, s0)"
  shows "(\<forall>d evs. cache_bounded (cacheSize_of s0 * 1024) (fst (dispatch_all d evs (s0, [])))) \<and>
         (\<exists>c. cache s0 = Some c \<and>
            (\<forall>calls. \<exists>c'. perform_all calls c = Some c' \<and>
               calculatedSize c' = resident_bytes c' \<and>
               resident_bytes c' \<le> cacheSize_of s0 * 1024 \<and>
               (\<forall>k v sz. map_of (chain c') k = Some (v, sz) \<longrightarrow>
                  lru_get k c' = (Some v, c'\<lparr>chain := unlink k (chain c') @ [(k, v, sz)]\<rparr>)) \<and>
               (\<forall>k v old sz. v \<noteq> U8 [] \<and> sizeCalculation_page v \<le> cacheSize_of s0 * 1024 \<and>
                    map_of (chain c') k = Some (old, sz) \<and> identical v old \<longrightarrow>
                  lru_set identical k v c' =
                    Some (Inr (c'\<lparr>chain := unlink k (chain c') @ [(k, old, sz)]\<rparr>))) \<and>
               (\<forall>k v. v \<noteq> U8 [] \<and> sizeCalculation_page v \<le> cacheSize_of s0 * 1024 \<and>
                    (\<forall>old sz. map_of (chain c') k = Some (old, sz) \<longrightarrow> \<not> identical v old) \<longrightarrow>
                  inserts_lru (cacheSize_of s0 * 1024) k v c')))"
proof -
  let ?cap = "cacheSize_of s0 * 1024"
  from init_cache [OF assms] obtain c where
    c: "cache s0 = Some c" "chain c = []" "maxSize c = ?cap" "max_opt c = 0"
       "lru_inv sizeCalculation_page c"
    by blast
  have ok: "cache_ok ?cap s0" using c by (simp add: cache_ok_def)
  have part1: "cache_bounded ?cap (fst (dispatch_all d evs (s0, [])))" for d evs
    using dispatch_all_inv [of ?cap "(s0, [])" d evs] ok by (simp add: cache_ok_bounded)
  have part2: "\<exists>c'. perform_all calls c = Some c' \<and>
               calculatedSize c' = resident_bytes c' \<and> resident_bytes c' \<le> ?cap \<and>
               (\<forall>k v sz. map_of (chain c') k = Some (v, sz) \<longrightarrow>
                  lru_get k c' = (Some v, c'\<lparr>chain := unlink k (chain c') @ [(k, v, sz)]\<rparr>)) \<and>
               (\<forall>k v old sz. v \<noteq> U8 [] \<and> sizeCalculation_page v \<le> ?cap \<and>
                    map_of (chain c') k = Some (old, sz) \<and> identical v old \<longrightarrow>
                  lru_set identical k v c' =
                    Some (Inr (c'\<lparr>chain := unlink k (chain c') @ [(k, old, sz)]\<rparr>))) \<and>
               (\<forall>k v. v \<noteq> U8 [] \<and> sizeCalculation_page v \<le> ?cap \<and>
                    (\<forall>old sz. map_of (chain c') k = Some (old, sz) \<longrightarrow> \<not> identical v old) \<longrightarrow>
                  inserts_lru ?cap k v c')" for calls
  proof -
    from perform_all_inv [OF c(5), of calls] obtain c' where
      c': "perform_all calls c = Some c'" "lru_inv sizeCalculation_page c'"
          "maxSize c' = maxSize c" "max_opt c' = max_opt c"
      by blast
    have cap: "maxSize c' = ?cap" using c'(3) c(3) by simp
    have m: "max_opt c' = 0" using c'(4) c(4) by simp
    have get: "lru_get k c' = (Some v, c'\<lparr>chain := unlink k (chain c') @ [(k, v, sz)]\<rparr>)"
      if "map_of (chain c') k = Some (v, sz)" for k v sz
      using that by (rule lru_get_hit)
    have touch: "lru_set identical k v c' =
        Some (Inr (c'\<lparr>chain := unlink k (chain c') @ [(k, old, sz)]\<rparr>))"
      if "v \<noteq> U8 [] \<and> sizeCalculation_page v \<le> ?cap \<and>
          map_of (chain c') k = Some (old, sz) \<and> identical v old" for k v old sz
    proof -
      have pos: "0 < sizeCalculation_page v" using that by (simp add: sizeCalculation_page_pos)
      have fit: "sizeCalculation_page v \<le> maxSize c'" using that cap by simp
      show ?thesis using c'(2) pos fit that by (intro lru_set_same) simp_all
    qed
    have ins: "inserts_lru ?cap k v c'"
      if "v \<noteq> U8 [] \<and> sizeCalculation_page v \<le> ?cap \<and>
          (\<forall>old sz. map_of (chain c') k = Some (old, sz) \<longrightarrow> \<not> identical v old)" for k v
      using inserts_lru_holds [OF c'(2) m, of v k] that cap by simp
    show ?thesis
      using c'(1) lru_inv_resident [OF c'(2)] cap get touch ins
      by (intro exI [of _ c']) simp
  qed
  show ?thesis using part1 part2 c(1) by blast
qed

theorem page_cache_bounded_witness:
  "fst (init (Some \<lparr>maxPageSize = None, cacheSize = Some 1\<rparr>) (initial_state True)) = None \<and>
   cache_bounded 1024
     (fst (dispatch_all 2
        [Receive (XOpen ''db'') (handshake (initial_state True)),
         HeadArrives 0 (HeadResponse 200 (Numeric 8192)),
         Resume 0,
         Receive (XRead ''db'' (Some 0) (Some 1024)) (handshake (initial_state True))]
        (kb_init, []))) \<and>
   (\<exists>c. cache kb_init = Some c \<and>
        perform_all [CacheSet (1, 0) (U8 (replicate 600 0)), CacheSet (1, 1) (U8 (replicate 400 0)),
                     CacheGet (1, 0)] c = Some kb_cache) \<and>
   resident_bytes kb_cache \<le> 1024 \<and>
   lru_get (1, 1) kb_cache =
     (Some (U8 (replicate 400 0)),
      kb_cache\<lparr>chain := [((1, 0), U8 (replicate 600 0), 600), ((1, 1), U8 (replicate 400 0), 400)]\<rparr>) \<and>
   inserts_lru 1024 (1, 2) (U8 (replicate 200 0)) kb_cache \<and>
   lru_set identical (1, 2) (U8 (replicate 200 0)) kb_cache =
     Some (Inr (kb_cache\<lparr>chain := [((1, 0), U8 (replicate 600 0), 600),
                                     ((1, 2), U8 (replicate 200 0), 200)],
                          calculatedSize := 800\<rparr>))"
proof -
  let ?opts = "Some \<lparr>maxPageSize = None, cacheSize = Some 1\<rparr>"
  let ?calls = "[CacheSet (1, 0) (U8 (replicate 600 0)), CacheSet (1, 1) (U8 (replicate 400 0)),
                 CacheGet (1, 0)]"
  have h: "init ?opts (initial_state True) = (None, kb_init)"
    by (simp add: kb_init_def init_def new_LRUCache_def isPosInt_def cacheSize_of_def
        initial_state_def Let_def)
  have cap: "cacheSize_of kb_init * 1024 = 1024"
    by (simp add: kb_init_def init_def new_LRUCache_def isPosInt_def cacheSize_of_def
        initial_state_def Let_def)
  have c0: "cache kb_init =
      Some \<lparr>max_opt = 0, maxSize = 1024, maxEntrySize = 1024,
            sizeCalculation = Some sizeCalculation_page, chain = [], calculatedSize = 0\<rparr>"
    by (simp add: kb_init_def init_def new_LRUCache_def isPosInt_def cacheSize_of_def
        initial_state_def Let_def)
  have run: "perform_all ?calls
      \<lparr>max_opt = 0, maxSize = 1024, maxEntrySize = 1024,
       sizeCalculation = Some sizeCalculation_page, chain = [], calculatedSize = 0\<rparr> = Some kb_cache"
    by (simp add: kb_cache_def lru_defs sizeCalculation_page_def Let_def)
  note inst = page_cache_bounded [OF h, unfolded cap]
  from inst have 1: "cache_bounded 1024
     (fst (dispatch_all 2
        [Receive (XOpen ''db'') (handshake (initial_state True)),
         HeadArrives 0 (HeadResponse 200 (Numeric 8192)),
         Resume 0,
         Receive (XRead ''db'' (Some 0) (Some 1024)) (handshake (initial_state True))]
        (kb_init, [])))"
    by blast
  from inst obtain c where cc: "cache kb_init = Some c"
    and every: "\<forall>calls. \<exists>c'. perform_all calls c = Some c' \<and>
               calculatedSize c' = resident_bytes c' \<and>
               resident_bytes c' \<le> 1024 \<and>
               (\<forall>k v sz. map_of (chain c') k = Some (v, sz) \<longrightarrow>
                  lru_get k c' = (Some v, c'\<lparr>chain := unlink k (chain c') @ [(k, v, sz)]\<rparr>)) \<and>
               (\<forall>k v old sz. v \<noteq> U8 [] \<and> sizeCalculation_page v \<le> 1024 \<and>
                    map_of (chain c') k = Some (old, sz) \<and> identical v old \<longrightarrow>
                  lru_set identical k v c' =
                    Some (Inr (c'\<lparr>chain := unlink k (chain c') @ [(k, old, sz)]\<rparr>))) \<and>
               (\<forall>k v. v \<noteq> U8 [] \<and> sizeCalculation_page v \<le> 1024 \<and>
                    (\<forall>old sz. map_of (chain c') k = Some (old, sz) \<longrightarrow> \<not> identical v old) \<longrightarrow>
                  inserts_lru 1024 k v c')"
    by (elim conjE exE) (rule that)
  have ce: "c = \<lparr>max_opt = 0, maxSize = 1024, maxEntrySize = 1024,
            sizeCalculation = Some sizeCalculation_page, chain = [], calculatedSize = 0\<rparr>"
    using cc c0 by simp
  from every [rule_format, of ?calls] obtain c' where c': "perform_all ?calls c = Some c'"
    and b: "resident_bytes c' \<le> 1024"
    and g: "\<forall>k v sz. map_of (chain c') k = Some (v, sz) \<longrightarrow>
              lru_get k c' = (Some v, c'\<lparr>chain := unlink k (chain c') @ [(k, v, sz)]\<rparr>)"
    and i: "\<forall>k v. v \<noteq> U8 [] \<and> sizeCalculation_page v \<le> 1024 \<and>
              (\<forall>old sz. map_of (chain c') k = Some (old, sz) \<longrightarrow> \<not> identical v old) \<longrightarrow>
              inserts_lru 1024 k v c'"
    by (elim conjE exE) (rule that)
  have e: "c' = kb_cache" using c' run unfolding ce by simp
  have 2: "resident_bytes kb_cache \<le> 1024" using b e by simp
  have 3: "lru_get (1, 1) kb_cache =
     (Some (U8 (replicate 400 0)),
      kb_cache\<lparr>chain := [((1, 0), U8 (replicate 600 0), 600), ((1, 1), U8 (replicate 400 0), 400)]\<rparr>)"
    using g [rule_format, of "(1, 1)" "U8 (replicate 400 0)" 400] e
    by (simp add: kb_cache_def unlink_def)
  have 4: "inserts_lru 1024 (1, 2) (U8 (replicate 200 0)) kb_cache"
    using i [rule_format, of "U8 (replicate 200 0)" "(1, 2)"] e
    by (simp add: kb_cache_def sizeCalculation_page_def)
  have 5: "lru_set identical (1, 2) (U8 (replicate 200 0)) kb_cache =
     Some (Inr (kb_cache\<lparr>chain := [((1, 0), U8 (replicate 600 0), 600),
                                     ((1, 2), U8 (replicate 200 0), 200)],
                          calculatedSize := 800\<rparr>))"
    by (simp add: kb_cache_def lru_defs sizeCalculation_page_def Let_def)
  have 0: "fst (init ?opts (initial_state True)) = None" using h by simp
  have 6: "\<exists>c. cache kb_init = Some c \<and> perform_all ?calls c = Some kb_cache"
    using c0 run by simp
  from 0 1 6 2 3 4 5 show ?thesis by (intro conjI)
qed

section \<open>Reads across a page boundary\<close>

text \<open>
  C5 (cross-page read rejection). For an open file whose page size \<open>p\<close> is known,
  \<^verbatim>\<open>xRead(url, offset, n)\<close> fails with the error \<^verbatim>\<open>Read chunk ... spans across a
  page-boundary\<close> exactly when \<open>(offset div p) * p + p < offset + n\<close>; and a read that stays
  within its page, aligned or not, succeeds when the page is resident and the consumer's
  buffer holds \<open>n\<close> bytes.
\<close>

theorem cross_page_read_rejected:
  assumes "map_of (chain (files s)) u = Some (FileEntry i, sz)"
    and "pageSize (objects s i) = Some p" "0 < p"
  shows "((\<exists>s'. run net (xRead (Suc d) u (Some off) (Some n) buf s)
                  = Some (Inl SpansPageBoundary, s'))
            \<longleftrightarrow> (off div p) * p + p < off + n) \<and>
         (\<not> (off div p) * p + p < off + n \<longrightarrow>
            (\<forall>c b. cache s = Some c \<longrightarrow> peek (i, off div p) c = Some (U8 b) \<longrightarrow>
                   n \<le> length buf \<longrightarrow>
               (\<exists>buf' s'. run net (xRead (Suc d) u (Some off) (Some n) buf s)
                             = Some (Inr (0, buf'), s'))))"
proof (cases "(off div p) * p + p < off + n")
  case True
  then show ?thesis
    using assms by (simp add: xRead_known [OF assms] xRead_body_def Let_def)
next
  case False
  let ?st = "xRead_cache u off n buf i p (off div p) (s\<lparr>files := moveToTail u (files s)\<rparr>)"
  have "run net ?st \<noteq> Some (Inl SpansPageBoundary, s')" for s'
  proof
    assume "run net ?st = Some (Inl SpansPageBoundary, s')"
    from run_raises_only [OF _ _ ro_xRead_cache this]
    show False by (simp add: read_errors_def)
  qed
  then have 1: "\<not> (\<exists>s'. run net (xRead (Suc d) u (Some off) (Some n) buf s)
                      = Some (Inl SpansPageBoundary, s'))"
    using False assms by (simp add: xRead_known [OF assms] xRead_body_def Let_def)
  have 2: "\<exists>buf' s'. run net (xRead (Suc d) u (Some off) (Some n) buf s)
                       = Some (Inr (0, buf'), s')"
    if "cache s = Some c" "peek (i, off div p) c = Some (U8 b)" "n \<le> length buf" for c b
    using xRead_hit [OF assms False that, of net d] by blast
  show ?thesis using False 1 2 by blast
qed

theorem cross_page_read_rejected_witness:
  "(\<exists>s'. run db_server (xRead (Suc 0) ''db'' (Some 100) (Some 1024) (replicate 4096 0) db_read0)
           = Some (Inl SpansPageBoundary, s')) \<and>
   (\<exists>buf' s'. run db_server (xRead (Suc 0) ''db'' (Some 100) (Some 100) (replicate 4096 0) db_read0)
           = Some (Inr (0, buf'), s'))"
proof -
  have f: "map_of (chain (files db_read0)) ''db'' = Some (FileEntry 1, 0)"
    and p: "pageSize (objects db_read0 1) = Some 1024" "0 < (1024::nat)"
    by (simp_all add: db_defs)
  have c: "cache db_read0 =
      Some \<lparr>max_opt = 0, maxSize = 1048576, maxEntrySize = 1048576,
            sizeCalculation = Some sizeCalculation_page,
            chain = [((1, 0), U8 db_page0, 1024)], calculatedSize = 1024\<rparr>"
    by (simp add: db_read0_def)
  from cross_page_read_rejected [OF f p, of db_server 0 100 1024 "replicate 4096 0"]
  have 1: "\<exists>s'. run db_server (xRead (Suc 0) ''db'' (Some 100) (Some 1024) (replicate 4096 0) db_read0)
                = Some (Inl SpansPageBoundary, s')"
    by simp
  from cross_page_read_rejected [OF f p, of db_server 0 100 100 "replicate 4096 0"] c
  have 2: "\<exists>buf' s'. run db_server (xRead (Suc 0) ''db'' (Some 100) (Some 100) (replicate 4096 0) db_read0)
                = Some (Inr (0, buf'), s')"
    by (simp add: peek_def)
  from 1 2 show ?thesis by (rule conjI)
qed

section \<open>The outcome of \<^verbatim>\<open>xOpen\<close>\<close>

text \<open>
  C9, as stated, fails: a probe answered with a status that is not 2xx (here 404, without
  \<^verbatim>\<open>Content-Length\<close>) opens the file, and the consumer receives the status 0.
\<close>

theorem xOpen_not_found_counterexample:
  "map_option fst (run not_found_server (workMessage 1 (XOpen ''db'') (handshake db_init) db_init)) =
     Some (Inr ((handshake db_init)\<lparr>lock := [Store 16777214, Store 0, Notify]\<rparr>))"
  by (simp add: run_workMessage run_handler_xOpen not_found_server_def handshake_def
      db_defs lru_defs io_defs handler_defs Let_def)


text \<open>
  C9, amended. For a URL that is not in the registry, \<^verbatim>\<open>xOpen\<close> fails (the consumer receives
  the status 1) exactly when the probe's \<^verbatim>\<open>fetch\<close> rejects (a network error) or its
  \<^verbatim>\<open>Content-Length\<close> is not a number for \<^verbatim>\<open>BigInt\<close>; the HTTP status of the response is not
  looked at, so any other response, 2xx or not, opens the file. Then an entry with this
  URL is stored under the URL, and every later \<^verbatim>\<open>xOpen\<close> of it succeeds without a new probe.
\<close>

theorem xOpen_outcome:
  assumes "plain (files s)" "peek u (files s) = None"
  shows "\<exists>s'. run net (workMessage d (XOpen u) con s) =
            Some (Inr (con\<lparr>lock := lock con @
                         [Store (case head_reply net (length (probes s)) u of
                                   HeadFails \<Rightarrow> 1
                                 | HeadResponse st Malformed \<Rightarrow> 1
                                 | HeadResponse st _ \<Rightarrow> 0), Notify]\<rparr>), s') \<and>
            (\<forall>st h. head_reply net (length (probes s)) u = HeadResponse st h \<longrightarrow> h \<noteq> Malformed \<longrightarrow>
               peek u (files s') = Some (FileEntry (nextId s)) \<and>
               url (objects s' (nextId s)) = u \<and>
               (\<forall>net' con'. \<exists>s''. run net' (workMessage d (XOpen u) con' s') =
                    Some (Inr (con'\<lparr>lock := lock con' @ [Store 0, Notify]\<rparr>), s'') \<and>
                  probes s'' = probes s'))"
proof -
  from run_xOpen_fresh [OF assms, of net] obtain s' where
    r: "run net (xOpen u s) =
            Some ((case head_reply net (length (probes s)) u of
                     HeadFails \<Rightarrow> Inl FetchRejected
                   | HeadResponse st Malformed \<Rightarrow> Inl SyntaxError
                   | HeadResponse st _ \<Rightarrow> Inr 0), s')"
    and k: "case head_reply net (length (probes s)) u of
               HeadFails \<Rightarrow> peek u (files s') = Some (FilePromise (length (probes s))) \<and>
                             probe_state s' (length (probes s)) = Some (Inl FetchRejected)
             | HeadResponse st Malformed \<Rightarrow>
                 peek u (files s') = Some (FilePromise (length (probes s))) \<and>
                 probe_state s' (length (probes s)) = Some (Inl SyntaxError)
             | HeadResponse st h \<Rightarrow>
                 peek u (files s') = Some (FileEntry (nextId s)) \<and>
                 url (objects s' (nextId s)) = u \<and>
                 fsize (objects s' (nextId s)) = (case h of Numeric n \<Rightarrow> int n | _ \<Rightarrow> 0) \<and>
                 pageSize (objects s' (nextId s)) = None"
    by blast
  have 1: "run net (workMessage d (XOpen u) con s) =
            Some (Inr (con\<lparr>lock := lock con @
                         [Store (case head_reply net (length (probes s)) u of
                                   HeadFails \<Rightarrow> 1
                                 | HeadResponse st Malformed \<Rightarrow> 1
                                 | HeadResponse st _ \<Rightarrow> 0), Notify]\<rparr>), s')"
    using r by (simp add: run_workMessage run_handler_xOpen split: head_outcome.splits header.splits)
  have 2: "peek u (files s') = Some (FileEntry (nextId s)) \<and> url (objects s' (nextId s)) = u \<and>
           (\<forall>net' con'. \<exists>s''. run net' (workMessage d (XOpen u) con' s') =
                    Some (Inr (con'\<lparr>lock := lock con' @ [Store 0, Notify]\<rparr>), s'') \<and>
                  probes s'' = probes s')"
    if h: "head_reply net (length (probes s)) u = HeadResponse st h" "h \<noteq> Malformed" for st h
  proof -
    have pk: "peek u (files s') = Some (FileEntry (nextId s))" "url (objects s' (nextId s)) = u"
      using k h by (cases h; simp)+
    have "run net' (workMessage d (XOpen u) con' s') =
            Some (Inr (con'\<lparr>lock := lock con' @ [Store 0, Notify]\<rparr>),
                  s'\<lparr>files := moveToTail u (files s')\<rparr>)" for net' con'
      by (simp add: run_workMessage run_handler_xOpen run_xOpen_known [OF pk(1)])
    then show ?thesis using pk by auto
  qed
  show ?thesis using 1 2 by blast
qed


theorem xOpen_outcome_witness:
  "\<exists>s'. run not_found_server (workMessage 1 (XOpen ''db'') (handshake db_init) db_init) =
            Some (Inr ((handshake db_init)\<lparr>lock := [Store 16777214, Store 0, Notify]\<rparr>), s') \<and>
          peek ''db'' (files s') = Some (FileEntry 1)"
proof -
  have a: "plain (files db_init)" "peek ''db'' (files db_init) = None"
    by (simp_all add: plain_def peek_def db_init_def)
  have h: "head_reply not_found_server (length (probes db_init)) ''db'' = HeadResponse 404 Absent"
    by (simp add: not_found_server_def)
  from xOpen_outcome [OF a, of not_found_server 1 "handshake db_init"] h
  show ?thesis by (auto simp: handshake_def db_init_def)
qed

section \<open>A failed open stays in the registry\<close>

text \<open>
  C10 (a failed open poisons the registry). When the probe started by \<^verbatim>\<open>xOpen(url)\<close>
  rejects, the rejected promise stays in the registry under the URL. While it is there,
  every \<^verbatim>\<open>xOpen\<close>, \<^verbatim>\<open>xRead\<close> and \<^verbatim>\<open>xFilesize\<close> for the URL fails with the promise's rejection,
  \<^verbatim>\<open>xAccess\<close> reports the file as not accessible (it writes 0), no new probe is issued, and
  the promise is still there afterwards.
\<close>

theorem failed_open_poisons:
  "(plain (files s0) \<and> peek u (files s0) = None \<and>
      head_reply net (length (probes s0)) u = HeadFails \<longrightarrow>
      (\<exists>s. run net (xOpen u s0) = Some (Inl FetchRejected, s) \<and>
           length (probes s) = length (probes s0) + 1 \<and>
           poisoned u (length (probes s0)) FetchRejected s)) \<and>
   (poisoned u f e s \<longrightarrow>
      (\<exists>s'. run net' (xOpen u s) = Some (Inl e, s') \<and> poisoned u f e s' \<and> probes s' = probes s) \<and>
      (\<exists>s'. run net' (xAccess u con s) = Some (Inr (0, con\<lparr>shm0 := 0\<rparr>), s') \<and>
            poisoned u f e s' \<and> probes s' = probes s) \<and>
      (\<exists>s'. run net' (xRead (Suc d) u off n buf s) = Some (Inl e, s') \<and>
            poisoned u f e s' \<and> probes s' = probes s) \<and>
      (\<exists>s'. run net' (xFilesize u con s) = Some (Inl e, s') \<and>
            poisoned u f e s' \<and> probes s' = probes s))"
proof (intro conjI impI)
  assume a: "plain (files s0) \<and> peek u (files s0) = None \<and>
      head_reply net (length (probes s0)) u = HeadFails"
  then have pl: "plain (files s0)" and ab: "peek u (files s0) = None" by simp_all
  from run_xOpen_fresh [OF pl ab, of net] a
  show "\<exists>s. run net (xOpen u s0) = Some (Inl FetchRejected, s) \<and>
           length (probes s) = length (probes s0) + 1 \<and>
           poisoned u (length (probes s0)) FetchRejected s"
    by (auto simp: poisoned_def)
next
  assume p: "poisoned u f e s"
  let ?s = "s\<lparr>files := moveToTail u (files s)\<rparr>"
  have q: "poisoned u f e ?s" "probes ?s = probes s" using p by (simp_all add: poisoned_touch)
  show "\<exists>s'. run net' (xOpen u s) = Some (Inl e, s') \<and> poisoned u f e s' \<and> probes s' = probes s"
    using run_xOpen_poisoned [OF p, of net'] q by blast
  show "\<exists>s'. run net' (xAccess u con s) = Some (Inr (0, con\<lparr>shm0 := 0\<rparr>), s') \<and>
            poisoned u f e s' \<and> probes s' = probes s"
    using run_xOpen_poisoned [OF p, of net'] q by (simp add: run_xAccess)
  show "\<exists>s'. run net' (xRead (Suc d) u off n buf s) = Some (Inl e, s') \<and>
            poisoned u f e s' \<and> probes s' = probes s"
    using run_xRead_poisoned [OF p, of net' d off n buf] q by blast
  show "\<exists>s'. run net' (xFilesize u con s) = Some (Inl e, s') \<and>
            poisoned u f e s' \<and> probes s' = probes s"
    using run_xFilesize_poisoned [OF p, of net' con] q by blast
qed

theorem failed_open_poisons_witness:
  "\<exists>s. run unreachable_server (xOpen ''db'' db_init) = Some (Inl FetchRejected, s) \<and>
       poisoned ''db'' 0 FetchRejected s \<and>
       (\<exists>s'. run db_server (xOpen ''db'' s) = Some (Inl FetchRejected, s') \<and> probes s' = probes s) \<and>
       (\<exists>s'. run db_server (xRead (Suc 0) ''db'' (Some 0) (Some 1024) [] s)
                = Some (Inl FetchRejected, s') \<and> probes s' = probes s)"
proof -
  have a: "plain (files db_init) \<and> peek ''db'' (files db_init) = None \<and>
      head_reply unreachable_server (length (probes db_init)) ''db'' = HeadFails"
    by (simp add: plain_def peek_def db_init_def unreachable_server_def)
  from failed_open_poisons [of db_init "''db''" unreachable_server] a
  obtain s where s: "run unreachable_server (xOpen ''db'' db_init) = Some (Inl FetchRejected, s)"
    "poisoned ''db'' (length (probes db_init)) FetchRejected s"
    by blast
  then have p: "poisoned ''db'' 0 FetchRejected s" by (simp add: db_init_def)
  from failed_open_poisons [of db_init "''db''" unreachable_server 0 FetchRejected s db_server
      "handshake db_init" 0 "Some 0" "Some 1024" "[]"] p
  have "(\<exists>s'. run db_server (xOpen ''db'' s) = Some (Inl FetchRejected, s') \<and> probes s' = probes s) \<and>
       (\<exists>s'. run db_server (xRead (Suc 0) ''db'' (Some 0) (Some 1024) [] s)
                = Some (Inl FetchRejected, s') \<and> probes s' = probes s)"
    by blast
  then show ?thesis using s(1) p by blast
qed

section \<open>The status cell\<close>


section \<open>A failed download\<close>

text \<open>
  C3 (fetch failure), as the code has it. For an open file whose page size is known and a
  read within one page \<open>k\<close>. (1) When the read misses the cache (nothing is stored for \<open>k\<close>,
  or a page number whose page holds no array), no promise is stored for the page before
  \<open>k\<close> or for the page that one refers to, the promises of the pages of the segment to
  download fit in the cache (4 bytes each), and the \<^verbatim>\<open>fetch\<close> of the segment rejects: \<^verbatim>\<open>xRead\<close>
  fails with the rejection and \<^verbatim>\<open>workMessage\<close> stores the status 1 and notifies, the
  consumer being otherwise as it was; one request has been added; the rejected promise is
  in the cache under the key of \<open>k\<close>, and under the keys of the other pages of the segment
  are the promises derived from it, rejected too. (2) While a rejected promise is stored
  for \<open>k\<close>, every \<^verbatim>\<open>xRead\<close> of the page fails in the same way, whatever the network would
  answer, issues no request, and leaves the promise where it is. Nothing deletes the
  entry, and a retry does not download.
\<close>

theorem failed_fetch_stays_cached:
  assumes "peek u (files s) = Some (FileEntry i)"
    and "pageSize (objects s i) = Some p" "0 < p" "\<not> (off div p) * p + p < off + n"
  shows "(cache_ok cap s \<and> cache s = Some c \<and> misses i (off div p) c \<and>
          quiet_prev i (off div p) c \<and> 4 \<le> cap \<and>
          4 * int ((chunk_size p i (off div p) c + p - 1) div p) \<le> cap \<and>
          get_reply net (length (loads s))
            (u, int (off div p * p),
             int (off div p * p) + (int (chunk_size p i (off div p) c) - 1)) = GetFails \<longrightarrow>
          (\<exists>s'. run net (workMessage (Suc d) (XRead u (Some off) (Some n)) con s) =
                  Some (Inr (con\<lparr>lock := lock con @ [Store 1, Notify]\<rparr>), s') \<and>
                run net (xRead (Suc d) u (Some off) (Some n) (buffer con) s) =
                  Some (Inl FetchRejected, s') \<and>
                loads s' = loads s @
                  [((u, int (off div p * p),
                     int (off div p * p) + (int (chunk_size p i (off div p) c) - 1)), LoadFailed)] \<and>
                cache_ok cap s' \<and>
                rejected (i, off div p) (PFetch (length (loads s))) s' \<and>
                (\<forall>j. off div p < j \<and>
                     j < off div p + (chunk_size p i (off div p) c + p - 1) div p \<longrightarrow>
                     rejected (i, j) (PThen (length (loads s)) (off div p)) s') \<and>
                peek u (files s') = Some (FileEntry i) \<and> objects s' = objects s)) \<and>
         (rejected (i, off div p) q s \<longrightarrow>
          (\<exists>s'. run net' (workMessage (Suc d) (XRead u (Some off) (Some n)) con s) =
                  Some (Inr (con\<lparr>lock := lock con @ [Store 1, Notify]\<rparr>), s') \<and>
                run net' (xRead (Suc d) u (Some off) (Some n) (buffer con) s) =
                  Some (Inl FetchRejected, s') \<and>
                loads s' = loads s \<and> rejected (i, off div p) q s' \<and>
                peek u (files s') = Some (FileEntry i) \<and> objects s' = objects s))"
proof (intro conjI impI)
  assume a: "cache_ok cap s \<and> cache s = Some c \<and> misses i (off div p) c \<and>
          quiet_prev i (off div p) c \<and> 4 \<le> cap \<and>
          4 * int ((chunk_size p i (off div p) c + p - 1) div p) \<le> cap \<and>
          get_reply net (length (loads s))
            (u, int (off div p * p),
             int (off div p * p) + (int (chunk_size p i (off div p) c) - 1)) = GetFails"
  then have ok: "cache_ok cap s" and c: "cache s = Some c" and m: "misses i (off div p) c"
    and q: "quiet_prev i (off div p) c" and cap: "4 \<le> cap"
      "4 * int ((chunk_size p i (off div p) c + p - 1) div p) \<le> cap"
    and fails: "get_reply net (length (loads s))
            (u, int (off div p * p),
             int (off div p * p) + (int (chunk_size p i (off div p) c) - 1)) = GetFails"
    by simp_all
  from run_xRead_misses_fails [OF assms ok c m q cap fails, of d "buffer con"]
  obtain s' where s': "run net (xRead (Suc d) u (Some off) (Some n) (buffer con) s) =
        Some (Inl FetchRejected, s')"
    and rest: "loads s' = loads s @
             [((u, int (off div p * p), int (off div p * p) + (int (chunk_size p i (off div p) c) - 1)),
               LoadFailed)] \<and>
           cache_ok cap s' \<and>
           rejected (i, off div p) (PFetch (length (loads s))) s' \<and>
           (\<forall>j. off div p < j \<and> j < off div p + (chunk_size p i (off div p) c + p - 1) div p \<longrightarrow>
                rejected (i, j) (PThen (length (loads s)) (off div p)) s') \<and>
           peek u (files s') = Some (FileEntry i) \<and> objects s' = objects s"
    by blast
  from s' have "run net (workMessage (Suc d) (XRead u (Some off) (Some n)) con s) =
        Some (Inr (con\<lparr>lock := lock con @ [Store 1, Notify]\<rparr>), s')"
    by (rule run_workMessage_xRead_throws)
  then show "\<exists>s'. run net (workMessage (Suc d) (XRead u (Some off) (Some n)) con s) =
                  Some (Inr (con\<lparr>lock := lock con @ [Store 1, Notify]\<rparr>), s') \<and>
                run net (xRead (Suc d) u (Some off) (Some n) (buffer con) s) =
                  Some (Inl FetchRejected, s') \<and>
                loads s' = loads s @
                  [((u, int (off div p * p),
                     int (off div p * p) + (int (chunk_size p i (off div p) c) - 1)), LoadFailed)] \<and>
                cache_ok cap s' \<and>
                rejected (i, off div p) (PFetch (length (loads s))) s' \<and>
                (\<forall>j. off div p < j \<and>
                     j < off div p + (chunk_size p i (off div p) c + p - 1) div p \<longrightarrow>
                     rejected (i, j) (PThen (length (loads s)) (off div p)) s') \<and>
                peek u (files s') = Some (FileEntry i) \<and> objects s' = objects s"
    using s' rest by (intro exI [of _ s']) simp
next
  assume r: "rejected (i, off div p) q s"
  from run_xRead_rejected [OF assms r, of net' d "buffer con"]
  obtain s' where s': "run net' (xRead (Suc d) u (Some off) (Some n) (buffer con) s) =
        Some (Inl FetchRejected, s')"
    and rest: "loads s' = loads s \<and> rejected (i, off div p) q s' \<and>
           peek u (files s') = Some (FileEntry i) \<and> objects s' = objects s"
    by blast
  from s' have "run net' (workMessage (Suc d) (XRead u (Some off) (Some n)) con s) =
        Some (Inr (con\<lparr>lock := lock con @ [Store 1, Notify]\<rparr>), s')"
    by (rule run_workMessage_xRead_throws)
  then show "\<exists>s'. run net' (workMessage (Suc d) (XRead u (Some off) (Some n)) con s) =
                  Some (Inr (con\<lparr>lock := lock con @ [Store 1, Notify]\<rparr>), s') \<and>
                run net' (xRead (Suc d) u (Some off) (Some n) (buffer con) s) =
                  Some (Inl FetchRejected, s') \<and>
                loads s' = loads s \<and> rejected (i, off div p) q s' \<and>
                peek u (files s') = Some (FileEntry i) \<and> objects s' = objects s"
    using s' rest by (intro exI [of _ s']) simp
qed

theorem failed_fetch_stays_cached_witness:
  "\<exists>s'. run unreachable_server
          (workMessage (Suc 0) (XRead ''db'' (Some 1024) (Some 1024)) (handshake db_init) db_read0) =
          Some (Inr ((handshake db_init)\<lparr>lock := [Store 16777214, Store 1, Notify]\<rparr>), s') \<and>
        loads s' = loads db_read0 @ [((''db'', 1024, 3071), LoadFailed)] \<and>
        rejected (1, 1) (PFetch 1) s' \<and> rejected (1, 2) (PThen 1 1) s' \<and>
        (\<exists>s''. run db_server
                 (workMessage (Suc 0) (XRead ''db'' (Some 1024) (Some 1024)) (handshake db_init) s') =
                 Some (Inr ((handshake db_init)\<lparr>lock := [Store 16777214, Store 1, Notify]\<rparr>), s'') \<and>
               loads s'' = loads s') \<and>
        (\<exists>s''. run db_server
                 (workMessage (Suc 0) (XRead ''db'' (Some 2048) (Some 1024)) (handshake db_init) s') =
                 Some (Inr ((handshake db_init)\<lparr>lock := [Store 16777214, Store 1, Notify]\<rparr>), s'') \<and>
               loads s'' = loads s')"
proof -
  let ?con = "handshake db_init"
  let ?c = "\<lparr>max_opt = 0, maxSize = 1048576, maxEntrySize = 1048576,
             sizeCalculation = Some sizeCalculation_page,
             chain = [((1::nat, 0::nat), U8 db_page0, 1024)], calculatedSize = 1024\<rparr>"
  have l: "lock ?con = [Store 16777214]" by (simp add: handshake_def)
  have f: "peek ''db'' (files db_read0) = Some (FileEntry 1)"
    and p: "pageSize (objects db_read0 1) = Some 1024" "0 < (1024::nat)"
    and in1: "\<not> (1024 div 1024) * 1024 + 1024 < 1024 + (1024::nat)"
    and in2: "\<not> (2048 div 1024) * 1024 + 1024 < 2048 + (1024::nat)"
    by (simp_all add: db_defs peek_def)
  have ch: "chunk_size 1024 1 (1024 div 1024) ?c = 2048"
    by (simp add: chunk_size_def peek_def db_page0_def)
  have a: "cache_ok 1048576 db_read0 \<and> cache db_read0 = Some ?c \<and>
      misses 1 (1024 div 1024) ?c \<and> quiet_prev 1 (1024 div 1024) ?c \<and> (4::int) \<le> 1048576 \<and>
      4 * int ((chunk_size 1024 1 (1024 div 1024) ?c + 1024 - 1) div 1024) \<le> 1048576 \<and>
      get_reply unreachable_server (length (loads db_read0))
        (''db'', int (1024 div 1024 * 1024),
         int (1024 div 1024 * 1024) + (int (chunk_size 1024 1 (1024 div 1024) ?c) - 1)) = GetFails"
    unfolding ch using db_read0_ok
    by (simp add: misses_def quiet_prev_def no_promise_def peek_def db_read0_def
        unreachable_server_def)
  from failed_fetch_stays_cached [OF f p in1, of 1048576 ?c unreachable_server 0 ?con] a
  obtain s' where s': "run unreachable_server
        (workMessage (Suc 0) (XRead ''db'' (Some 1024) (Some 1024)) ?con db_read0) =
        Some (Inr (?con\<lparr>lock := lock ?con @ [Store 1, Notify]\<rparr>), s')"
    and ld: "loads s' = loads db_read0 @
               [((''db'', int (1024 div 1024 * 1024),
                  int (1024 div 1024 * 1024) + (int (chunk_size 1024 1 (1024 div 1024) ?c) - 1)),
                 LoadFailed)]"
    and r1: "rejected (1, 1024 div 1024) (PFetch (length (loads db_read0))) s'"
    and rj: "\<forall>j. 1024 div 1024 < j \<and>
                 j < 1024 div 1024 + (chunk_size 1024 1 (1024 div 1024) ?c + 1024 - 1) div 1024 \<longrightarrow>
                 rejected (1, j) (PThen (length (loads db_read0)) (1024 div 1024)) s'"
    and f': "peek ''db'' (files s') = Some (FileEntry 1)"
    and o': "objects s' = objects db_read0"
    by blast
  have ld': "loads s' = loads db_read0 @ [((''db'', 1024, 3071), LoadFailed)]"
    using ld unfolding ch by simp
  have r1': "rejected (1, 1) (PFetch 1) s'" using r1 by (simp add: db_defs)
  have r2': "rejected (1, 2) (PThen 1 1) s'"
    using rj [rule_format, of 2] unfolding ch by (simp add: db_defs)
  have p': "pageSize (objects s' 1) = Some 1024" using p(1) o' by simp
  have q1: "rejected (1, 1024 div 1024) (PFetch 1) s'" using r1' by simp
  have q2: "rejected (1, 2048 div 1024) (PThen 1 1) s'" using r2' by simp
  from failed_fetch_stays_cached [OF f' p' p(2) in1, of 1048576 ?c unreachable_server 0 ?con
      "PFetch 1" db_server] q1
  have t1: "\<exists>s''. run db_server
                 (workMessage (Suc 0) (XRead ''db'' (Some 1024) (Some 1024)) ?con s') =
                 Some (Inr (?con\<lparr>lock := lock ?con @ [Store 1, Notify]\<rparr>), s'') \<and>
               loads s'' = loads s'"
    by blast
  from failed_fetch_stays_cached [OF f' p' p(2) in2, of 1048576 ?c unreachable_server 0 ?con
      "PThen 1 1" db_server] q2
  have t2: "\<exists>s''. run db_server
                 (workMessage (Suc 0) (XRead ''db'' (Some 2048) (Some 1024)) ?con s') =
                 Some (Inr (?con\<lparr>lock := lock ?con @ [Store 1, Notify]\<rparr>), s'') \<and>
               loads s'' = loads s'"
    by blast
  show ?thesis
    using s' ld' r1' r2' t1 t2 unfolding l by (intro exI [of _ s']) simp
qed

text \<open>The read of page 5 of the database fails on a network that is down and leaves its
  promise in the cache; the same read repeated with the server back fails again and
  changes nothing, the list of requests included.\<close>

theorem failed_fetch_counterexample:
  "run unreachable_server
     (xRead (Suc 0) ''db'' (Some 5120) (Some 1024) (replicate 4096 0) db_read0) =
     Some (Inl FetchRejected, db_failed5) \<and>
   cached (1, 5) db_failed5 = Some (Promise (PFetch 1)) \<and>
   run db_server
     (xRead (Suc 0) ''db'' (Some 5120) (Some 1024) (replicate 4096 0) db_failed5) =
     Some (Inl FetchRejected, db_failed5)"
  by (simp add: db_failed5_def unreachable_server_def cached_def peek_def
      db_defs lru_defs io_defs handler_defs Let_def)


end
